theory Spec2Isabelle
  imports Complex_Main "HOL-Library.Log_Nat"
begin

section \<open>Window geometry (main process)\<close>

text \<open>
  The main process keeps two windows: the small widget (anchor) and the main window
  (panel). Electron reports window positions and sizes, and the work area of the primary
  display, as integer pixels; they are modelled as \<open>int\<close>.
\<close>

record window =
  win_x :: int
  win_y :: int
  win_width :: int
  win_height :: int

record work_area =
  screenWidth :: int
  screenHeight :: int

text \<open>
  \<^verbatim>\<open>ensureWidgetInBounds\<close>: the body of the function after the \<^verbatim>\<open>if (!widgetWindow) return\<close>
  guard, with the margin (the constant 8 of the source) as a parameter. The position is
  written back only when \<^verbatim>\<open>needsUpdate\<close> is set.
\<close>

definition ensure_in_bounds :: "int \<Rightarrow> work_area \<Rightarrow> window \<Rightarrow> window" where
  "ensure_in_bounds margin scr w =
     (let currentX = win_x w; currentY = win_y w;
          widgetWidth = win_width w; widgetHeight = win_height w;
          (newX, updX) =
            (if currentX < margin then (margin, True)
             else if currentX + widgetWidth > screenWidth scr - margin
               then (screenWidth scr - widgetWidth - margin, True)
             else (currentX, False));
          (newY, updY) =
            (if currentY < margin then (margin, True)
             else if currentY + widgetHeight > screenHeight scr - margin
               then (screenHeight scr - widgetHeight - margin, True)
             else (currentY, False));
          needsUpdate = (updX \<or> updY)
      in if needsUpdate then w\<lparr>win_x := newX, win_y := newY\<rparr> else w)"

definition ensureWidgetInBounds :: "work_area \<Rightarrow> window option \<Rightarrow> window option" where
  "ensureWidgetInBounds scr widgetWindow =
     (case widgetWindow of
        None \<Rightarrow> None
      | Some w \<Rightarrow> Some (ensure_in_bounds 8 scr w))"

text \<open>
  The \<^verbatim>\<open>move-widget\<close> handler clamps with \<^verbatim>\<open>Math.max(margin, Math.min(new, screen - size - margin))\<close>
  and moves the window only when the position changed.
\<close>

definition move_widget_by :: "int \<Rightarrow> work_area \<Rightarrow> int \<Rightarrow> int \<Rightarrow> window \<Rightarrow> window" where
  "move_widget_by margin scr deltaX deltaY w =
     (let currentX = win_x w; currentY = win_y w;
          widgetWidth = win_width w; widgetHeight = win_height w;
          newX = max margin (min (currentX + deltaX) (screenWidth scr - widgetWidth - margin));
          newY = max margin (min (currentY + deltaY) (screenHeight scr - widgetHeight - margin))
      in if newX \<noteq> currentX \<or> newY \<noteq> currentY
         then w\<lparr>win_x := newX, win_y := newY\<rparr> else w)"

definition move_widget :: "work_area \<Rightarrow> int \<Rightarrow> int \<Rightarrow> window \<Rightarrow> window" where
  "move_widget = move_widget_by 8"

text \<open>
  \<^verbatim>\<open>calculate-main-window-position\<close>. The renderer sends the widget's DOM rectangle; the
  handler reads the size of the main window's content (\<^verbatim>\<open>None\<close> when the main window
  is missing or the query throws, so that the defaults 698 and 500 stay; a reported 0 is
  falsy and also gives the default), the widget window's position and the work area.
\<close>

record widget_rect =
  rect_left :: int
  rect_top :: int
  rect_width :: int
  rect_height :: int

datatype position_class = position_right | position_left | position_right_adjusted

record placement =
  place_x :: int
  place_y :: int
  place_class :: position_class

definition main_window_dimensions :: "(int \<times> int) option \<Rightarrow> int \<times> int" where
  "main_window_dimensions dimensions =
     (case dimensions of
        None \<Rightarrow> (698, 500)
      | Some (w, h) \<Rightarrow> ((if w = 0 then 698 else w), (if h = 0 then 500 else h)))"

definition place_main_window ::
  "int \<Rightarrow> work_area \<Rightarrow> int \<times> int \<Rightarrow> int \<times> int \<Rightarrow> widget_rect \<Rightarrow> placement" where
  "place_main_window gap scr dims widgetWindowPos widgetRect =
     (let mainWindowWidth = fst dims; mainWindowHeight = snd dims;
          widgetScreenX = fst widgetWindowPos + rect_left widgetRect;
          widgetScreenY = snd widgetWindowPos + rect_top widgetRect;
          widgetScreenRight = widgetScreenX + rect_width widgetRect;
          spaceRight = screenWidth scr - widgetScreenRight - gap;
          spaceLeft = widgetScreenX - gap;
          (x, y, positionClass) =
            (if spaceRight \<ge> mainWindowWidth
               then (widgetScreenRight + gap, widgetScreenY, position_right)
             else if spaceLeft \<ge> mainWindowWidth
               then (widgetScreenX - mainWindowWidth - gap, widgetScreenY, position_left)
             else (widgetScreenRight + gap,
                   (if widgetScreenY + mainWindowHeight > screenHeight scr
                    then screenHeight scr - mainWindowHeight - gap
                    else widgetScreenY),
                   position_right_adjusted))
      in \<lparr>place_x = max gap (min x (screenWidth scr - mainWindowWidth - gap)),
          place_y = max gap (min y (screenHeight scr - mainWindowHeight - gap)),
          place_class = positionClass\<rparr>)"

definition calculate_main_window_position ::
  "work_area \<Rightarrow> (int \<times> int) option \<Rightarrow> int \<times> int \<Rightarrow> widget_rect \<Rightarrow> placement" where
  "calculate_main_window_position scr dimensions widgetWindowPos widgetRect =
     place_main_window 12 scr (main_window_dimensions dimensions) widgetWindowPos widgetRect"

section \<open>JavaScript exceptions\<close>

text \<open>
  Values thrown by the JavaScript code: an \<^verbatim>\<open>Error\<close> object has a \<^verbatim>\<open>name\<close> and a
  \<^verbatim>\<open>message\<close>. \<^verbatim>\<open>new Error(msg)\<close> has the name \<^verbatim>\<open>Error\<close>; the runtime raises
  \<^verbatim>\<open>TypeError\<close> on a property read of \<^verbatim>\<open>undefined\<close> or \<^verbatim>\<open>null\<close> and \<^verbatim>\<open>SyntaxError\<close>
  when JSON parsing fails.
\<close>

datatype js_error = Thrown (error_name: string) (error_message: string)

definition new_Error :: "string \<Rightarrow> js_error" where
  "new_Error msg = Thrown ''Error'' msg"

definition TypeError :: js_error where
  "TypeError = Thrown ''TypeError'' ''Cannot read properties of undefined''"

definition SyntaxError :: js_error where
  "SyntaxError = Thrown ''SyntaxError'' ''Unexpected token in JSON''"

section \<open>Drag reorder score (renderer)\<close>



text \<open>\<^verbatim>\<open>Math.round(v * 100) / 100\<close>; \<^verbatim>\<open>Math.round\<close> rounds half up.\<close>

definition round2 :: "real \<Rightarrow> real" where
  "round2 v = real_of_int \<lfloor>v * 100 + 1 / 2\<rfloor> / 100"


subsection \<open>The score on IEEE doubles\<close>

text \<open>
  A JavaScript number is a binary64 double. A finite double is modelled by the real number
  it denotes (so \<^verbatim>\<open>-0\<close> is 0), and \<open>to_double x\<close> is the double nearest to \<open>x\<close>, a tie going
  to the even significand: the rounding of every arithmetic operation and of the
  conversion of a decimal numeral. A double with exponent \<open>e\<close> is a multiple of
  \<open>2 powi (e - 52)\<close> with a significand below \<open>2 ^ 53\<close>; \<open>double_exponent x\<close> is the exponent of
  the binade of \<open>x\<close>, and is -1022 for the subnormal numbers. Overflow to \<^verbatim>\<open>Infinity\<close> (a
  magnitude of \<open>2 ^ 1024\<close> or more) is not modelled; the scores lie between 0.51 and 50.
\<close>

definition double_exponent :: "real \<Rightarrow> int" where
  "double_exponent x = max (- 1022) (bitlen \<lfloor>\<bar>x\<bar> * 2 ^ 1074\<rfloor> - 1075)"

definition round_half_even :: "real \<Rightarrow> int" where
  "round_half_even y =
     (let n = \<lfloor>y\<rfloor>; d = y - of_int n
      in if d < 1 / 2 then n else if 1 / 2 < d then n + 1 else if even n then n else n + 1)"

definition to_double :: "real \<Rightarrow> real" where
  "to_double x =
     (let u = 2 powi (double_exponent x - 52)
      in of_int (round_half_even (x / u)) * u)"

text \<open>\<^verbatim>\<open>a + b\<close>, \<^verbatim>\<open>a - b\<close>, \<^verbatim>\<open>a * b\<close> and \<^verbatim>\<open>a / b\<close> on doubles: the exact result, rounded.\<close>

definition fadd :: "real \<Rightarrow> real \<Rightarrow> real" where
  "fadd a b = to_double (a + b)"

definition fsub :: "real \<Rightarrow> real \<Rightarrow> real" where
  "fsub a b = to_double (a - b)"

definition fmul :: "real \<Rightarrow> real \<Rightarrow> real" where
  "fmul a b = to_double (a * b)"

definition fdiv :: "real \<Rightarrow> real \<Rightarrow> real" where
  "fdiv a b = to_double (a / b)"

text \<open>\<^verbatim>\<open>Math.round\<close>: the nearest integer, a tie going up.\<close>

definition Math_round :: "real \<Rightarrow> int" where
  "Math_round x = \<lfloor>x + 1 / 2\<rfloor>"

text \<open>
  A row of the task list: the number its \<^verbatim>\<open>data-ricu\<close> attribute spells in decimal (\<open>None\<close>
  when the attribute is missing or spells no number, where \<^verbatim>\<open>parseFloat\<close> gives \<^verbatim>\<open>NaN\<close>),
  and whether the search filter has hidden the row. The filter sets
  \<^verbatim>\<open>row.style.display = 'none'\<close> on a row that does not match and leaves it in the list, so
  \<^verbatim>\<open>taskList.children\<close> and \<^verbatim>\<open>querySelectorAll('.task-row')\<close> still count it.
\<close>

record task_row =
  data_ricu :: "real option"
  search_hidden :: bool

text \<open>\<^verbatim>\<open>parseFloat(row.getAttribute('data-ricu')) || 1\<close>.\<close>

definition parsed_ricu :: "task_row \<Rightarrow> real" where
  "parsed_ricu row =
     (case data_ricu row of
        None \<Rightarrow> 1
      | Some q \<Rightarrow> if to_double q = 0 then 1 else to_double q)"

text \<open>\<^verbatim>\<open>taskRows[i]\<close> is \<^verbatim>\<open>undefined\<close> out of range, and \<^verbatim>\<open>undefined.getAttribute\<close> throws.\<close>

definition row_score :: "task_row list \<Rightarrow> int \<Rightarrow> js_error + real" where
  "row_score taskRows i =
     (if 0 \<le> i \<and> i < int (length taskRows)
      then Inr (parsed_ricu (taskRows ! nat i)) else Inl TypeError)"

text \<open>
  \<^verbatim>\<open>Math.min(50, Math.max(0.51, newRicu))\<close> and then \<^verbatim>\<open>Math.round(newRicu * 100) / 100\<close>;
  the literal \<^verbatim>\<open>0.51\<close> is the double nearest to 0.51.
\<close>

definition clamp_and_round :: "real \<Rightarrow> real" where
  "clamp_and_round newRicu =
     (let clamped = min 50 (max (to_double 0.51) newRicu)
      in fdiv (real_of_int (Math_round (fmul clamped 100))) 100)"

text \<open>
  The score computed in \<^verbatim>\<open>handleMouseUp\<close>, on doubles, from the dragged row, the rows of
  the list after the move (the dragged row and the hidden rows included) and the dragged
  row's new index in that list.
\<close>

definition new_ricu_double :: "task_row \<Rightarrow> task_row list \<Rightarrow> int \<Rightarrow> js_error + real" where
  "new_ricu_double dragged taskRows newIndex =
     (let raw =
        (if length taskRows = 1 then Inr (parsed_ricu dragged)
         else if newIndex = 0 then
           (case row_score taskRows 1 of
              Inl e \<Rightarrow> Inl e
            | Inr nextRicu \<Rightarrow> Inr (min 50 (fadd nextRicu 0.5)))
         else if newIndex = int (length taskRows) - 1 then
           (case row_score taskRows (newIndex - 1) of
              Inl e \<Rightarrow> Inl e
            | Inr prevRicu \<Rightarrow> Inr (max (to_double 0.51) (fsub prevRicu 0.5)))
         else
           (case row_score taskRows (newIndex - 1) of
              Inl e \<Rightarrow> Inl e
            | Inr prevRicu \<Rightarrow>
                (case row_score taskRows (newIndex + 1) of
                   Inl e \<Rightarrow> Inl e
                 | Inr nextRicu \<Rightarrow> Inr (fdiv (fadd prevRicu nextRicu) 2))))
      in case raw of
           Inl e \<Rightarrow> Inl e
         | Inr r \<Rightarrow> Inr (clamp_and_round r))"

text \<open>
  \<^verbatim>\<open>handleMouseUp\<close> saves a score only when the row's index changed: \<open>None\<close> is no
  update.
\<close>

definition drag_reorder ::
  "int \<Rightarrow> task_row \<Rightarrow> task_row list \<Rightarrow> int \<Rightarrow> js_error + real option" where
  "drag_reorder originalIndex dragged taskRows newIndex =
     (if newIndex \<noteq> originalIndex then
        (case new_ricu_double dragged taskRows newIndex of
           Inl e \<Rightarrow> Inl e
         | Inr r \<Rightarrow> Inr (Some r))
      else Inr None)"

text \<open>
  What the user sees of a filtered list: the rows that are not hidden, and the position of
  the row at index \<open>i\<close> among them.
\<close>

definition visible_rows :: "task_row list \<Rightarrow> task_row list" where
  "visible_rows taskRows = filter (\<lambda>row. \<not> search_hidden row) taskRows"

definition visible_position :: "task_row list \<Rightarrow> int \<Rightarrow> nat" where
  "visible_position taskRows i =
     length (filter (\<lambda>row. \<not> search_hidden row) (take (nat i) taskRows))"


section \<open>Sleep mode (main process)\<close>

text \<open>
  The module variables \<^verbatim>\<open>isSleeping\<close> and \<^verbatim>\<open>sleepTimer\<close>, the intervals that
  \<^verbatim>\<open>setInterval\<close> has started and \<^verbatim>\<open>clearInterval\<close> has not stopped (each with the
  \<^verbatim>\<open>totalMinutes\<close> of its closure), the two windows as far as sleep mode touches them
  (\<open>None\<close>: the window is missing or destroyed), and the messages sent to the windows.
\<close>

datatype target = to_main | to_widget

datatype ipc_message =
  main_window_hidden_for_sleep
| update_sleep_timer int int
| sleep_mode_ended

record sleep_state =
  isSleeping :: bool
  sleepTimer :: "nat option"
  intervals :: "(nat \<times> int) list"
  next_timer :: nat
  widget_opacity :: "real option"
  main_visible :: "bool option"
  sent :: "(target \<times> ipc_message) list"

definition send_main :: "ipc_message \<Rightarrow> sleep_state \<Rightarrow> sleep_state" where
  "send_main m s =
     (case main_visible s of None \<Rightarrow> s | Some v \<Rightarrow> s\<lparr>sent := sent s @ [(to_main, m)]\<rparr>)"

definition send_widget :: "ipc_message \<Rightarrow> sleep_state \<Rightarrow> sleep_state" where
  "send_widget m s =
     (case widget_opacity s of None \<Rightarrow> s | Some v \<Rightarrow> s\<lparr>sent := sent s @ [(to_widget, m)]\<rparr>)"

definition set_opacity :: "real \<Rightarrow> sleep_state \<Rightarrow> sleep_state" where
  "set_opacity v s =
     (case widget_opacity s of None \<Rightarrow> s | Some old \<Rightarrow> s\<lparr>widget_opacity := Some v\<rparr>)"

definition set_main_visible :: "bool \<Rightarrow> sleep_state \<Rightarrow> sleep_state" where
  "set_main_visible b s =
     (case main_visible s of None \<Rightarrow> s | Some old \<Rightarrow> s\<lparr>main_visible := Some b\<rparr>)"

definition setInterval :: "int \<Rightarrow> sleep_state \<Rightarrow> sleep_state" where
  "setInterval totalMinutes s =
     s\<lparr>sleepTimer := Some (next_timer s),
       intervals := intervals s @ [(next_timer s, totalMinutes)],
       next_timer := Suc (next_timer s)\<rparr>"

definition clear_sleep_timer :: "sleep_state \<Rightarrow> sleep_state" where
  "clear_sleep_timer s =
     (case sleepTimer s of
        None \<Rightarrow> s
      | Some h \<Rightarrow> s\<lparr>intervals := filter (\<lambda>t. fst t \<noteq> h) (intervals s), sleepTimer := None\<rparr>)"

definition start_sleep_mode :: "int \<Rightarrow> int \<Rightarrow> sleep_state \<Rightarrow> sleep_state" where
  "start_sleep_mode hours minutes s =
     (if isSleeping s then s
      else
        (let totalMinutes = hours * 60 + minutes;
             s1 = s\<lparr>isSleeping := True\<rparr>;
             s2 = set_opacity 0.7 s1;
             s3 = set_main_visible False s2;
             s4 = send_widget main_window_hidden_for_sleep s3;
             s5 = setInterval totalMinutes s4;
             s6 = send_main (update_sleep_timer hours minutes) s5
         in send_widget (update_sleep_timer hours minutes) s6))"

definition wakeUp :: "sleep_state \<Rightarrow> sleep_state" where
  "wakeUp s =
     (let s1 = s\<lparr>isSleeping := False\<rparr>;
          s2 = clear_sleep_timer s1;
          s3 = set_opacity 1.0 s2;
          s4 = set_main_visible True s3;
          s5 = send_main sleep_mode_ended s4
      in send_widget sleep_mode_ended s5)"

text \<open>One firing of the interval \<open>h\<close>; an interval that has been cleared does not fire.\<close>

definition interval_callback :: "nat \<Rightarrow> sleep_state \<Rightarrow> sleep_state" where
  "interval_callback h s =
     (case map_of (intervals s) h of
        None \<Rightarrow> s
      | Some totalMinutes \<Rightarrow>
          if totalMinutes > 0 then
            (let t = totalMinutes - 1;
                 s1 = s\<lparr>intervals := map (\<lambda>e. if fst e = h then (h, t) else e) (intervals s)\<rparr>;
                 s2 = send_main (update_sleep_timer (t div 60) (t mod 60)) s1
             in send_widget (update_sleep_timer (t div 60) (t mod 60)) s2)
          else wakeUp s)"

text \<open>One minute of wall-clock time: every running interval fires once.\<close>

definition minute_tick :: "sleep_state \<Rightarrow> sleep_state" where
  "minute_tick s = fold interval_callback (map fst (intervals s)) s"

text \<open>
  \<^verbatim>\<open>window-all-closed\<close> (which does not quit on macOS) destroys both windows and clears
  the interval, and leaves \<^verbatim>\<open>isSleeping\<close> as it is.
\<close>

definition window_all_closed :: "sleep_state \<Rightarrow> sleep_state" where
  "window_all_closed s = clear_sleep_timer (s\<lparr>widget_opacity := None, main_visible := None\<rparr>)"

text \<open>
  The events of the main process that touch the sleep state; \<open>WindowsChanged\<close> stands
  for every other handler, which can only create, destroy, show or hide the windows.
\<close>

datatype sleep_event =
  StartSleepMode int int
| WakeUpRequest
| IntervalFires nat
| WindowAllClosed
| WindowsChanged "real option" "bool option"

fun apply_event :: "sleep_event \<Rightarrow> sleep_state \<Rightarrow> sleep_state" where
  "apply_event (StartSleepMode hours minutes) s = start_sleep_mode hours minutes s"
| "apply_event WakeUpRequest s = wakeUp s"
| "apply_event (IntervalFires h) s = interval_callback h s"
| "apply_event WindowAllClosed s = window_all_closed s"
| "apply_event (WindowsChanged w m) s = s\<lparr>widget_opacity := w, main_visible := m\<rparr>"

definition startup :: "real option \<Rightarrow> bool option \<Rightarrow> sleep_state" where
  "startup w m =
     \<lparr>isSleeping = False, sleepTimer = None, intervals = [], next_timer = 0,
      widget_opacity = w, main_visible = m, sent = []\<rparr>"

inductive reachable :: "sleep_state \<Rightarrow> bool" where
  reachable_startup: "reachable (startup w m)"
| reachable_event: "reachable s \<Longrightarrow> reachable (apply_event e s)"

definition count_ended :: "target \<Rightarrow> sleep_state \<Rightarrow> nat" where
  "count_ended t s = length (filter (\<lambda>m. m = (t, sleep_mode_ended)) (sent s))"

text \<open>
  The invariant of the sleep state: no interval runs and \<^verbatim>\<open>sleepTimer\<close> is empty, or
  exactly one interval runs, \<^verbatim>\<open>sleepTimer\<close> holds it and \<^verbatim>\<open>isSleeping\<close> is set.
\<close>

definition sleep_inv :: "sleep_state \<Rightarrow> bool" where
  "sleep_inv s =
     ((intervals s = [] \<and> sleepTimer s = None) \<or>
      (\<exists>h t. intervals s = [(h, t)] \<and> sleepTimer s = Some h \<and> isSleeping s))"

section \<open>Sync trigger (renderer)\<close>

text \<open>
  \<^verbatim>\<open>triggerSyncOnOpen\<close> up to its first \<^verbatim>\<open>await\<close>. The module variables are
  \<^verbatim>\<open>lastSyncTime\<close> and \<^verbatim>\<open>syncInProgress\<close>; \<open>api_calls\<close> records the calls made on the API
  client. The call sees whether the API client exists, what
  \<^verbatim>\<open>authService.isAuthenticated()\<close> answers and \<^verbatim>\<open>Date.now()\<close>. Every early
  \<^verbatim>\<open>return\<close> sits inside the \<^verbatim>\<open>try\<close>, so the \<^verbatim>\<open>finally\<close> block resets
  \<^verbatim>\<open>syncInProgress\<close> on those paths too. The result says whether the call went on to
  the requests.
\<close>

datatype api_call = TriggerAllSourcesSync bool | TriggerRICURecalculation bool

record sync_state =
  lastSyncTime :: int
  syncInProgress :: bool
  api_calls :: "api_call list"

record sync_env =
  apiClientAvailable :: bool
  isAuthenticated :: bool
  now :: int

definition SYNC_COOLDOWN_MS :: int where
  "SYNC_COOLDOWN_MS = 5 * 60 * 1000"

definition triggerSyncOnOpen :: "sync_env \<Rightarrow> sync_state \<Rightarrow> bool \<times> sync_state" where
  "triggerSyncOnOpen env s =
     (if \<not> apiClientAvailable env \<or> \<not> isAuthenticated env
        then (False, s\<lparr>syncInProgress := False\<rparr>)
      else if syncInProgress s
        then (False, s\<lparr>syncInProgress := False\<rparr>)
      else
        (let timeSinceLastSync = now env - lastSyncTime s
         in if timeSinceLastSync < SYNC_COOLDOWN_MS
              then (False, s\<lparr>syncInProgress := False\<rparr>)
            else
              (True, s\<lparr>syncInProgress := True, lastSyncTime := now env,
                       api_calls := api_calls s @
                         [TriggerAllSourcesSync False, TriggerRICURecalculation False]\<rparr>)))"

text \<open>The end of a call that went on: the \<^verbatim>\<open>finally\<close> block after the awaited work.\<close>

definition sync_finished :: "sync_state \<Rightarrow> sync_state" where
  "sync_finished s = s\<lparr>syncInProgress := False\<rparr>"

definition sync_startup :: sync_state where
  "sync_startup = \<lparr>lastSyncTime = 0, syncInProgress = False, api_calls = []\<rparr>"

section \<open>JavaScript values, storage and the network\<close>

text \<open>
  The values JSON parsing produces, as far as the code reads them (numbers are integers
  here, and arrays, which have none of the properties the code reads, are left out). An
  object is the list of its properties.
\<close>

datatype jsval =
  JUndefined
| JNull
| JBool bool
| JNum int
| JStr string
| JObj "(string \<times> jsval) list"

fun truthy :: "jsval \<Rightarrow> bool" where
  "truthy JUndefined = False"
| "truthy JNull = False"
| "truthy (JBool b) = b"
| "truthy (JNum n) = (n \<noteq> 0)"
| "truthy (JStr s) = (s \<noteq> [])"
| "truthy (JObj kvs) = True"

text \<open>A property read \<^verbatim>\<open>v.k\<close>: it throws on \<^verbatim>\<open>undefined\<close> and \<^verbatim>\<open>null\<close>.\<close>

fun get_prop :: "jsval \<Rightarrow> string \<Rightarrow> js_error + jsval" where
  "get_prop JUndefined k = Inl TypeError"
| "get_prop JNull k = Inl TypeError"
| "get_prop (JObj kvs) k = (case map_of kvs k of None \<Rightarrow> Inr JUndefined | Some v \<Rightarrow> Inr v)"
| "get_prop v k = Inr JUndefined"

text \<open>An optional read \<^verbatim>\<open>v?.k\<close>: \<^verbatim>\<open>undefined\<close> when \<open>v\<close> is \<^verbatim>\<open>undefined\<close> or \<^verbatim>\<open>null\<close>.\<close>

fun get_prop_opt :: "jsval \<Rightarrow> string \<Rightarrow> jsval" where
  "get_prop_opt (JObj kvs) k = (case map_of kvs k of None \<Rightarrow> JUndefined | Some v \<Rightarrow> v)"
| "get_prop_opt v k = JUndefined"

fun nat_to_string :: "nat \<Rightarrow> string" where
  "nat_to_string n =
     (if n < 10 then [''0123456789'' ! n]
      else nat_to_string (n div 10) @ [''0123456789'' ! (n mod 10)])"

declare nat_to_string.simps [simp del]

text \<open>\<^verbatim>\<open>String(v)\<close>, which \<^verbatim>\<open>localStorage.setItem\<close> and \<^verbatim>\<open>new Error\<close> apply.\<close>

fun to_string :: "jsval \<Rightarrow> string" where
  "to_string JUndefined = ''undefined''"
| "to_string JNull = ''null''"
| "to_string (JBool b) = (if b then ''true'' else ''false'')"
| "to_string (JNum n) = (if n < 0 then ''-'' @ nat_to_string (nat (- n)) else nat_to_string (nat n))"
| "to_string (JStr s) = s"
| "to_string (JObj kvs) = ''[object Object]''"

text \<open>
  JSON parsing is the platform's: every function that parses takes it as the parameter
  \<open>J\<close>, where \<open>J text = None\<close> when \<^verbatim>\<open>JSON.parse(text)\<close> throws.
\<close>

type_synonym json_parse = "string \<Rightarrow> jsval option"

record response =
  status :: nat
  statusText :: string
  content_type :: "string option"
  body :: string

definition ok :: "response \<Rightarrow> bool" where
  "ok r = (200 \<le> status r \<and> status r \<le> 299)"

text \<open>
  A \<^verbatim>\<open>fetch\<close> rejects on a transport failure or resolves with a response. The network
  is a script: \<open>net n\<close> is what the fetch after \<open>n\<close> earlier ones gets. The state keeps
  the requests made, in order.
\<close>

datatype fetch_result = NetworkFailure | Responded response

datatype request =
  AuthStatus string
| AuthRefresh string
| ApiRequest string string

type_synonym network = "nat \<Rightarrow> fetch_result"

datatype storage_key = ACCESS_TOKEN | REFRESH_TOKEN | USER_DATA | AUTH_STATE

record auth_service =
  localStorage :: "storage_key \<rightharpoonup> string"
  user :: jsval
  authState :: string
  requests :: "request list"
  notifications :: "(string \<times> jsval) list"

definition fetch :: "network \<Rightarrow> request \<Rightarrow> auth_service \<Rightarrow> fetch_result \<times> auth_service" where
  "fetch net req s = (net (length (requests s)), s\<lparr>requests := requests s @ [req]\<rparr>)"

text \<open>\<^verbatim>\<open>localStorage.getItem\<close> gives \<^verbatim>\<open>null\<close> or a string; the empty string is falsy.\<close>

definition present :: "string option \<Rightarrow> bool" where
  "present v = (case v of None \<Rightarrow> False | Some t \<Rightarrow> t \<noteq> [])"

section \<open>Authentication service\<close>

text \<open>
  \<^verbatim>\<open>notifyListeners\<close> persists the state and calls every listener with the state and the
  user (a listener's exception is caught); one entry of \<open>notifications\<close> stands for one
  round of calls.
\<close>

definition notifyListeners :: "auth_service \<Rightarrow> auth_service" where
  "notifyListeners s =
     s\<lparr>localStorage := (localStorage s)(AUTH_STATE \<mapsto> authState s),
       notifications := notifications s @ [(authState s, user s)]\<rparr>"

definition clearAuthData :: "bool \<Rightarrow> auth_service \<Rightarrow> auth_service" where
  "clearAuthData skipNotification s =
     (let s1 = s\<lparr>user := JNull, authState := ''unauthenticated'',
                 localStorage := (localStorage s)(ACCESS_TOKEN := None, REFRESH_TOKEN := None,
                                                  USER_DATA := None, AUTH_STATE := None)\<rparr>
      in if \<not> skipNotification then notifyListeners s1 else s1)"

definition storeTokens :: "jsval \<Rightarrow> jsval \<Rightarrow> auth_service \<Rightarrow> auth_service" where
  "storeTokens accessToken refreshToken s =
     (let s1 = s\<lparr>localStorage := (localStorage s)(ACCESS_TOKEN \<mapsto> to_string accessToken)\<rparr>
      in if truthy refreshToken
         then s1\<lparr>localStorage := (localStorage s1)(REFRESH_TOKEN \<mapsto> to_string refreshToken)\<rparr>
         else s1)"

text \<open>
  \<^verbatim>\<open>verifyToken\<close>: every exception (the fetch rejecting, the body not parsing, a
  property read of \<^verbatim>\<open>null\<close>) is caught and gives \<^verbatim>\<open>false\<close>. The result is the
  truthiness of \<^verbatim>\<open>data.status === 'success' && data.user\<close>.
\<close>

definition verifyToken ::
  "json_parse \<Rightarrow> network \<Rightarrow> string \<Rightarrow> auth_service \<Rightarrow> bool \<times> auth_service" where
  "verifyToken J net token s =
     (if token = [] then (False, s)
      else
        (case fetch net (AuthStatus token) s of
           (NetworkFailure, s1) \<Rightarrow> (False, s1)
         | (Responded response, s1) \<Rightarrow>
             if ok response then
               (case J (body response) of
                  None \<Rightarrow> (False, s1)
                | Some data \<Rightarrow>
                    (case get_prop data ''status'' of
                       Inl e \<Rightarrow> (False, s1)
                     | Inr st \<Rightarrow>
                         if st = JStr ''success'' then
                           (case get_prop data ''user'' of
                              Inl e \<Rightarrow> (False, s1)
                            | Inr u \<Rightarrow> (truthy u, s1))
                         else (False, s1)))
             else (False, s1)))"

text \<open>
  The \<^verbatim>\<open>try\<close> block of \<^verbatim>\<open>refreshAccessToken\<close>: \<open>Inr b\<close> when it returns \<open>b\<close>, \<open>Inl e\<close>
  when it throws \<open>e\<close> (the fetch rejecting, \<^verbatim>\<open>response.json()\<close> failing, or
  \<^verbatim>\<open>data.tokens\<close> read on \<^verbatim>\<open>null\<close>).
\<close>

definition refresh_attempt ::
  "json_parse \<Rightarrow> network \<Rightarrow> auth_service \<Rightarrow> (js_error + bool) \<times> auth_service" where
  "refresh_attempt J net s =
     (let refreshToken = localStorage s REFRESH_TOKEN
      in if \<not> present refreshToken then (Inr False, clearAuthData False s)
         else
           (case fetch net (AuthRefresh (the refreshToken)) s of
              (NetworkFailure, s1) \<Rightarrow> (Inl (Thrown ''TypeError'' ''Failed to fetch''), s1)
            | (Responded response, s1) \<Rightarrow>
                if ok response then
                  (case J (body response) of
                     None \<Rightarrow> (Inl SyntaxError, s1)
                   | Some data \<Rightarrow>
                       (case get_prop data ''tokens'' of
                          Inl e \<Rightarrow> (Inl e, s1)
                        | Inr tokens \<Rightarrow>
                            (Inr True,
                             storeTokens (get_prop_opt tokens ''access_token'')
                               (get_prop_opt tokens ''refresh_token'') s1)))
                else (Inr False, clearAuthData False s1)))"

text \<open>The \<^verbatim>\<open>catch\<close> block retries while \<^verbatim>\<open>retryCount < 2\<close>.\<close>

function refreshAccessToken ::
  "json_parse \<Rightarrow> network \<Rightarrow> nat \<Rightarrow> auth_service \<Rightarrow> bool \<times> auth_service" where
  "refreshAccessToken J net retryCount s =
     (case refresh_attempt J net s of
        (Inr b, s1) \<Rightarrow> (b, s1)
      | (Inl e, s1) \<Rightarrow>
          if retryCount < 2 then refreshAccessToken J net (retryCount + 1) s1
          else (False, clearAuthData False s1))"
  by pat_completeness auto
termination
  by (relation "measure (\<lambda>(J, net, retryCount, s). 2 - retryCount)") auto

declare refreshAccessToken.simps [simp del]

text \<open>
  The results of the refresh \<^verbatim>\<open>fetch\<close> on which the \<^verbatim>\<open>try\<close> block throws: a transport
  failure, and a 2xx response whose body does not parse or parses to \<^verbatim>\<open>null\<close>.
\<close>

definition attempt_throws :: "json_parse \<Rightarrow> fetch_result \<Rightarrow> bool" where
  "attempt_throws J res =
     (case res of
        NetworkFailure \<Rightarrow> True
      | Responded response \<Rightarrow>
          ok response \<and>
          (case J (body response) of
             None \<Rightarrow> True
           | Some data \<Rightarrow> data = JNull \<or> data = JUndefined))"

definition getAccessToken ::
  "json_parse \<Rightarrow> network \<Rightarrow> auth_service \<Rightarrow> string option \<times> auth_service" where
  "getAccessToken J net s =
     (let token = localStorage s ACCESS_TOKEN
      in if \<not> present token then (None, s)
         else
           (case verifyToken J net (the token) s of
              (isValid, s1) \<Rightarrow>
                if \<not> isValid then
                  (case refreshAccessToken J net 0 s1 of
                     (refreshed, s2) \<Rightarrow>
                       if refreshed then (localStorage s2 ACCESS_TOKEN, s2) else (None, s2))
                else (token, s1)))"

text \<open>
  \<^verbatim>\<open>init\<close>. The stored user text is parsed only when it is truthy; a parse failure
  lands in the \<^verbatim>\<open>catch\<close> block. The result is the returned state.
\<close>

definition init :: "json_parse \<Rightarrow> network \<Rightarrow> auth_service \<Rightarrow> string \<times> auth_service" where
  "init J net s =
     (let accessToken = localStorage s ACCESS_TOKEN;
          refreshToken = localStorage s REFRESH_TOKEN;
          userData = localStorage s USER_DATA;
          storedState = localStorage s AUTH_STATE;
          s1 = s\<lparr>authState := (if present storedState then the storedState else ''unauthenticated'')\<rparr>
      in case (if present userData then J (the userData) else Some JNull) of
           None \<Rightarrow>
             (let s2 = notifyListeners (s1\<lparr>authState := ''unauthenticated''\<rparr>)
              in (authState s2, s2))
         | Some u \<Rightarrow>
             (let s2 = s1\<lparr>user := u\<rparr>;
                  s3 =
                    (if present accessToken \<and> truthy u then
                       (case verifyToken J net (the accessToken) s2 of
                          (isValid, s2a) \<Rightarrow>
                            if isValid then s2a\<lparr>authState := ''authenticated''\<rparr>
                            else if present refreshToken then
                              (case refreshAccessToken J net 0 s2a of
                                 (refreshed, s2b) \<Rightarrow>
                                   if \<not> refreshed then clearAuthData True s2b else s2b)
                            else clearAuthData True s2a)
                     else if present accessToken \<and> \<not> truthy u then clearAuthData True s2
                     else if \<not> present accessToken \<and> authState s2 = ''authenticated''
                       then clearAuthData True s2
                     else s2);
                  s4 = notifyListeners s3
              in (authState s4, s4)))"

section \<open>API client\<close>

text \<open>\<^verbatim>\<open>s.includes(sub)\<close> on strings.\<close>

fun str_includes :: "string \<Rightarrow> string \<Rightarrow> bool" where
  "str_includes [] sub = (sub = [])"
| "str_includes (c # cs) sub = (take (length sub) (c # cs) = sub \<or> str_includes cs sub)"

record api_result =
  result_status :: string
  result_data :: jsval
  result_message :: jsval

definition handleResponse :: "json_parse \<Rightarrow> response \<Rightarrow> js_error + api_result" where
  "handleResponse J response =
     (if status response = 429 then
        (let text = body response
         in Inl (new_Error (''Rate limited: '' @ (if text = [] then ''Too many requests'' else text))))
      else
        (let contentType = content_type response
         in if present contentType \<and> str_includes (the contentType) ''application/json'' then
              (case J (body response) of
                 None \<Rightarrow> Inl SyntaxError
               | Some data \<Rightarrow>
                   if \<not> ok response then
                     (case get_prop data ''message'' of
                        Inl e \<Rightarrow> Inl e
                      | Inr m \<Rightarrow>
                          Inl (new_Error
                            (if truthy m then to_string m
                             else ''HTTP '' @ nat_to_string (status response) @ '': '' @
                                  statusText response)))
                   else
                     (case get_prop data ''data'' of
                        Inl e \<Rightarrow> Inl e
                      | Inr d \<Rightarrow>
                          (case get_prop data ''message'' of
                             Inl e \<Rightarrow> Inl e
                           | Inr m \<Rightarrow>
                               Inr \<lparr>result_status = ''success'',
                                    result_data = (if truthy d then d else data),
                                    result_message = m\<rparr>)))
            else
              Inl (new_Error (''Expected JSON response, got: '' @ take 100 (body response)))))"

text \<open>
  \<^verbatim>\<open>makeRequest\<close>: one \<^verbatim>\<open>fetch\<close> with the token the authentication service gives, and
  the response handed to \<^verbatim>\<open>handleResponse\<close>; the \<^verbatim>\<open>catch\<close> block rethrows.
\<close>

definition makeRequest ::
  "json_parse \<Rightarrow> network \<Rightarrow> string \<Rightarrow> auth_service \<Rightarrow> (js_error + api_result) \<times> auth_service" where
  "makeRequest J net endpoint s =
     (case getAccessToken J net s of
        (accessToken, s1) \<Rightarrow>
          if \<not> present accessToken then (Inl (new_Error ''No valid access token available''), s1)
          else
            (case fetch net (ApiRequest endpoint (the accessToken)) s1 of
               (NetworkFailure, s2) \<Rightarrow> (Inl (Thrown ''TypeError'' ''Failed to fetch''), s2)
             | (Responded response, s2) \<Rightarrow> (handleResponse J response, s2)))"

text \<open>The session data is gone: what \<^verbatim>\<open>clearAuthData\<close> leaves behind.\<close>

definition cleared :: "auth_service \<Rightarrow> bool" where
  "cleared s =
     (authState s = ''unauthenticated'' \<and> user s = JNull \<and>
      localStorage s ACCESS_TOKEN = None \<and> localStorage s REFRESH_TOKEN = None \<and>
      localStorage s USER_DATA = None)"

text \<open>
  The two methods of the API client that \<^verbatim>\<open>triggerSyncOnOpen\<close> calls. Each is one
  \<^verbatim>\<open>makeRequest\<close> on its endpoint (a \<^verbatim>\<open>POST\<close> whose body carries \<^verbatim>\<open>force\<close>; a request is
  recorded with its endpoint and its bearer token). \<open>run_api_call\<close> is what an entry of
  \<open>api_calls\<close> does when it runs, and \<open>api_endpoint\<close> the endpoint it asks for.
\<close>

definition triggerAllSourcesSync ::
  "json_parse \<Rightarrow> network \<Rightarrow> bool \<Rightarrow> auth_service \<Rightarrow> (js_error + api_result) \<times> auth_service" where
  "triggerAllSourcesSync J net force s =
     makeRequest J net ''/api/queues/source-ingestion/trigger-all'' s"

definition triggerRICURecalculation ::
  "json_parse \<Rightarrow> network \<Rightarrow> bool \<Rightarrow> auth_service \<Rightarrow> (js_error + api_result) \<times> auth_service" where
  "triggerRICURecalculation J net force s =
     makeRequest J net ''/api/queues/ricu-recalculation/trigger'' s"

definition run_api_call ::
  "json_parse \<Rightarrow> network \<Rightarrow> api_call \<Rightarrow> auth_service \<Rightarrow> (js_error + api_result) \<times> auth_service" where
  "run_api_call J net c s =
     (case c of
        TriggerAllSourcesSync force \<Rightarrow> triggerAllSourcesSync J net force s
      | TriggerRICURecalculation force \<Rightarrow> triggerRICURecalculation J net force s)"

definition api_endpoint :: "api_call \<Rightarrow> string" where
  "api_endpoint c =
     (case c of
        TriggerAllSourcesSync force \<Rightarrow> ''/api/queues/source-ingestion/trigger-all''
      | TriggerRICURecalculation force \<Rightarrow> ''/api/queues/ricu-recalculation/trigger'')"

text \<open>The requests the authentication service sends: token verification and token refresh.\<close>

definition auth_request :: "request \<Rightarrow> bool" where
  "auth_request r =
     (case r of AuthStatus token \<Rightarrow> True | AuthRefresh token \<Rightarrow> True
      | ApiRequest endpoint token \<Rightarrow> False)"

text \<open>\<^verbatim>\<open>isAuthenticated()\<close> of the authentication service.\<close>

definition auth_isAuthenticated :: "auth_service \<Rightarrow> bool" where
  "auth_isAuthenticated s = (authState s = ''authenticated'' \<and> user s \<noteq> JNull)"


section \<open>Sample inputs\<close>

text \<open>
  Concrete inputs for the closed theorems below: a \<^verbatim>\<open>JSON.parse\<close> that knows three texts
  (a user object, a successful status answer and a refresh answer with new tokens), some
  responses, and a new service object over the storage an earlier run has left.
\<close>

abbreviation sample_parse :: json_parse where
  "sample_parse \<equiv>
     (\<lambda>text.
        if text = ''USER'' then Some (JObj [(''id'', JNum 7)])
        else if text = ''STATUS'' then
          Some (JObj [(''status'', JStr ''success''), (''user'', JObj [(''id'', JNum 7)])])
        else if text = ''TOKENS'' then
          Some (JObj [(''tokens'', JObj [(''access_token'', JStr ''new-access''),
                                         (''refresh_token'', JStr ''new-refresh'')])])
        else None)"

abbreviation status_ok :: response where
  "status_ok \<equiv>
     \<lparr>status = 200, statusText = ''OK'', content_type = Some ''application/json'',
      body = ''STATUS''\<rparr>"

abbreviation unauthorized :: response where
  "unauthorized \<equiv>
     \<lparr>status = 401, statusText = ''Unauthorized'', content_type = Some ''application/json'',
      body = ''DENIED''\<rparr>"

abbreviation new_tokens :: response where
  "new_tokens \<equiv>
     \<lparr>status = 200, statusText = ''OK'', content_type = Some ''application/json'',
      body = ''TOKENS''\<rparr>"

abbreviation html_page :: response where
  "html_page \<equiv>
     \<lparr>status = 200, statusText = ''OK'', content_type = Some ''text/html'',
      body = ''maintenance page''\<rparr>"

abbreviation slow_down :: response where
  "slow_down \<equiv>
     \<lparr>status = 429, statusText = ''Too Many Requests'', content_type = Some ''text/plain'',
      body = ''slow down''\<rparr>"

abbreviation stored_session :: "string \<Rightarrow> auth_service" where
  "stored_session st \<equiv>
     \<lparr>localStorage = [ACCESS_TOKEN \<mapsto> ''old-access'', REFRESH_TOKEN \<mapsto> ''old-refresh'',
                      USER_DATA \<mapsto> ''USER'', AUTH_STATE \<mapsto> st],
      user = JNull, authState = ''unauthenticated'', requests = [], notifications = []\<rparr>"

text \<open>
  A session whose user is signed in (\<^verbatim>\<open>isAuthenticated()\<close> is true), and rows of the task
  list with a given \<^verbatim>\<open>data-ricu\<close> attribute, shown or hidden by the search filter.
\<close>

abbreviation signed_in :: auth_service where
  "signed_in \<equiv>
     \<lparr>localStorage = [ACCESS_TOKEN \<mapsto> ''old-access'', REFRESH_TOKEN \<mapsto> ''old-refresh'',
                      USER_DATA \<mapsto> ''USER'', AUTH_STATE \<mapsto> ''authenticated''],
      user = JObj [(''id'', JNum 7)], authState = ''authenticated'', requests = [],
      notifications = []\<rparr>"

abbreviation visible_row :: "real \<Rightarrow> task_row" where
  "visible_row q \<equiv> \<lparr>data_ricu = Some q, search_hidden = False\<rparr>"

abbreviation hidden_row :: "real \<Rightarrow> task_row" where
  "hidden_row q \<equiv> \<lparr>data_ricu = Some q, search_hidden = True\<rparr>"


section \<open>Properties of the window geometry\<close>

lemma clamp_idem: "max m (min (max m (min a u)) u) = max m (min (a::int) u)"
  by (simp add: max_def min_def)

lemma move_widget_by_eq:
  "move_widget_by margin scr dx dy w =
     w\<lparr>win_x := max margin (min (win_x w + dx) (screenWidth scr - win_width w - margin)),
       win_y := max margin (min (win_y w + dy) (screenHeight scr - win_height w - margin))\<rparr>"
  by (cases w) (simp add: move_widget_by_def Let_def)

lemma move_widget_by_settles:
  "move_widget_by margin scr 0 0 (move_widget_by margin scr dx dy w) =
     move_widget_by margin scr dx dy w"
  by (simp add: move_widget_by_eq clamp_idem)

text \<open>
  Claim C7, as stated: for every rectangle narrower and lower than the screen, clamping
  twice is clamping once. \<^verbatim>\<open>ensureWidgetInBounds\<close> breaks this on a work area 100 wide
  for a widget 90 wide at x = 0: the first pass moves it to x = 8, where its right edge
  (98) passes 100 - 8, so the second pass moves it to x = 2.
\<close>

theorem ensureWidgetInBounds_twice_counterexample:
  "(90::int) < 100 \<and> (110::int) < 400 \<and>
   ensureWidgetInBounds \<lparr>screenWidth = 100, screenHeight = 400\<rparr>
     (Some \<lparr>win_x = 0, win_y = 50, win_width = 90, win_height = 110\<rparr>) =
     Some \<lparr>win_x = 8, win_y = 50, win_width = 90, win_height = 110\<rparr> \<and>
   ensureWidgetInBounds \<lparr>screenWidth = 100, screenHeight = 400\<rparr>
     (ensureWidgetInBounds \<lparr>screenWidth = 100, screenHeight = 400\<rparr>
       (Some \<lparr>win_x = 0, win_y = 50, win_width = 90, win_height = 110\<rparr>)) =
     Some \<lparr>win_x = 2, win_y = 50, win_width = 90, win_height = 110\<rparr>"
  by (simp add: ensureWidgetInBounds_def ensure_in_bounds_def)

text \<open>
  Claim C7, amended: when the rectangle and a margin on both sides fit the screen
  (width + 2 * margin \<le> screen width, height + 2 * margin \<le> screen height), the
  adjustment of \<^verbatim>\<open>ensureWidgetInBounds\<close> applied twice gives what it gives applied once,
  for every position, screen and margin; the clamp of the \<^verbatim>\<open>move-widget\<close> handler (with
  no further movement) does so too.
\<close>

theorem ensure_in_bounds_idempotent:
  assumes "win_width w + 2 * margin \<le> screenWidth scr"
      and "win_height w + 2 * margin \<le> screenHeight scr"
  shows "ensure_in_bounds margin scr (ensure_in_bounds margin scr w) =
           ensure_in_bounds margin scr w \<and>
         move_widget_by margin scr 0 0 (move_widget_by margin scr 0 0 w) =
           move_widget_by margin scr 0 0 w"
proof -
  have "ensure_in_bounds margin scr (ensure_in_bounds margin scr w) =
          ensure_in_bounds margin scr w"
    using assms by (auto simp: ensure_in_bounds_def Let_def split: if_splits)
  then show ?thesis by (simp add: move_widget_by_settles)
qed

theorem ensure_in_bounds_idempotent_witness:
  "ensure_in_bounds 8 \<lparr>screenWidth = 1920, screenHeight = 1080\<rparr>
     (ensure_in_bounds 8 \<lparr>screenWidth = 1920, screenHeight = 1080\<rparr>
        \<lparr>win_x = 1900, win_y = -5, win_width = 54, win_height = 110\<rparr>) =
   ensure_in_bounds 8 \<lparr>screenWidth = 1920, screenHeight = 1080\<rparr>
        \<lparr>win_x = 1900, win_y = -5, win_width = 54, win_height = 110\<rparr> \<and>
   ensure_in_bounds 8 \<lparr>screenWidth = 1920, screenHeight = 1080\<rparr>
        \<lparr>win_x = 1900, win_y = -5, win_width = 54, win_height = 110\<rparr> =
     \<lparr>win_x = 1858, win_y = 8, win_width = 54, win_height = 110\<rparr>"
  using ensure_in_bounds_idempotent
    [of "\<lparr>win_x = 1900, win_y = -5, win_width = 54, win_height = 110\<rparr>" 8
        "\<lparr>screenWidth = 1920, screenHeight = 1080\<rparr>"]
  by (simp add: ensure_in_bounds_def)

text \<open>
  Claim C4, as stated: for every panel size and screen, the placement's right and bottom
  edges stay within screen size - gap. On a work area 700 wide the default panel (698
  wide) is placed at x = 12, so its right edge is 710, beyond 700 - 12.
\<close>

theorem calculate_main_window_position_counterexample:
  "place_x (calculate_main_window_position \<lparr>screenWidth = 700, screenHeight = 600\<rparr> None
      (600, 100) \<lparr>rect_left = 0, rect_top = 0, rect_width = 54, rect_height = 110\<rparr>) = 12 \<and>
   main_window_dimensions None = (698, 500) \<and>
   (12::int) + 698 > 700 - 12"
  by (simp add: calculate_main_window_position_def place_main_window_def
      main_window_dimensions_def)

text \<open>
  Claim C4, amended: when the panel and a gap on both sides fit the screen
  (width + 2 * gap \<le> screen width, height + 2 * gap \<le> screen height), then for every
  widget position and every gap the placement lies in [gap, screen - size - gap] on both
  axes, so its right and bottom edges do not exceed screen size - gap.
\<close>

theorem place_main_window_within_screen:
  assumes "fst dims + 2 * gap \<le> screenWidth scr"
      and "snd dims + 2 * gap \<le> screenHeight scr"
  shows "gap \<le> place_x (place_main_window gap scr dims pos r) \<and>
         place_x (place_main_window gap scr dims pos r) + fst dims \<le> screenWidth scr - gap \<and>
         gap \<le> place_y (place_main_window gap scr dims pos r) \<and>
         place_y (place_main_window gap scr dims pos r) + snd dims \<le> screenHeight scr - gap"
  using assms by (auto simp: place_main_window_def Let_def split: if_splits)

theorem place_main_window_within_screen_witness:
  "place_x (place_main_window 12 \<lparr>screenWidth = 1920, screenHeight = 1080\<rparr> (698, 500)
      (1846, 900) \<lparr>rect_left = 0, rect_top = 0, rect_width = 54, rect_height = 110\<rparr>) + 698
     \<le> 1920 - 12 \<and>
   place_y (place_main_window 12 \<lparr>screenWidth = 1920, screenHeight = 1080\<rparr> (698, 500)
      (1846, 900) \<lparr>rect_left = 0, rect_top = 0, rect_width = 54, rect_height = 110\<rparr>) + 500
     \<le> 1080 - 12"
  using place_main_window_within_screen
    [of "(698, 500)" 12 "\<lparr>screenWidth = 1920, screenHeight = 1080\<rparr>" "(1846, 900)"
        "\<lparr>rect_left = 0, rect_top = 0, rect_width = 54, rect_height = 110\<rparr>"]
  by simp

section \<open>Properties of the drag reorder score\<close>



lemma round2_fixed: "round2 (real_of_int k / 100) = real_of_int k / 100"
proof -
  have "\<lfloor>real_of_int k + 1 / 2\<rfloor> = k" by linarith
  then show ?thesis by (simp add: round2_def)
qed





subsection \<open>Rounding to doubles\<close>

text \<open>
  \<open>to_double\<close> moves a number by at most half a unit in the last place, and leaves a number
  with a significand below \<open>2 ^ 53\<close> as it is; in a known binade it is computed by one
  rounding to an integer.
\<close>

lemma round_half_even_error: "\<bar>real_of_int (round_half_even y) - y\<bar> \<le> 1 / 2"
  unfolding round_half_even_def Let_def by (auto; linarith)

lemma round_half_even_of_int [simp]: "round_half_even (real_of_int n) = n"
  by (simp add: round_half_even_def)

lemma powi_times_power:
  assumes "0 \<le> e + int K"
  shows "(2::real) powi e * 2 ^ K = 2 ^ nat (e + int K)"
proof -
  have "(2::real) powi e * 2 ^ K = 2 powi e * 2 powi (int K)" by simp
  also have "\<dots> = 2 powi (e + int K)" by (simp add: power_int_add)
  also have "\<dots> = 2 powi (int (nat (e + int K)))" using assms by simp
  also have "\<dots> = 2 ^ nat (e + int K)" by (rule power_int_of_nat)
  finally show ?thesis .
qed

lemma bitlen_scaled:
  fixes y :: real
  assumes lo: "2 powi e \<le> y" and hi: "y < 2 powi (e + 1)" and e: "0 \<le> e + int K"
  shows "bitlen \<lfloor>y * 2 ^ K\<rfloor> = e + int K + 1"
proof -
  let ?N = "\<lfloor>y * 2 ^ K\<rfloor>"
  have "(2::real) ^ nat (e + int K) \<le> y * 2 ^ K"
    using lo powi_times_power[OF e] by (metis mult_right_mono zero_le_numeral zero_le_power)
  then have "real_of_int (2 ^ nat (e + int K)) \<le> y * 2 ^ K" by simp
  then have l: "2 ^ nat (e + int K) \<le> ?N" by (simp only: le_floor_iff)
  have e1: "0 \<le> (e + 1) + int K" using e by simp
  have "y * 2 ^ K < (2::real) ^ nat (e + 1 + int K)"
    using hi powi_times_power[OF e1] by (metis mult_strict_right_mono zero_less_numeral zero_less_power)
  then have "y * 2 ^ K < real_of_int (2 ^ nat (e + 1 + int K))" by simp
  then have h: "?N < 2 ^ nat (e + 1 + int K)" by (simp only: floor_less_iff)
  have "bitlen ?N \<le> e + 1 + int K"
    using h e1 by (simp add: bitlen_le_iff_power)
  moreover have "e + 1 + int K \<le> bitlen ?N"
  proof -
    have "nat (e + 1 + int K) - 1 = nat (e + int K)" using e by simp
    then show ?thesis using l by (simp add: bitlen_ge_iff_power)
  qed
  ultimately show ?thesis by simp
qed

lemma double_exponent_eq:
  assumes "2 powi e \<le> \<bar>x\<bar>" "\<bar>x\<bar> < 2 powi (e + 1)" "- 1022 \<le> e"
  shows "double_exponent x = e"
proof -
  have "0 \<le> e + int 1074" using assms(3) by simp
  from bitlen_scaled[OF assms(1,2) this]
  have "bitlen \<lfloor>\<bar>x\<bar> * 2 ^ 1074\<rfloor> = e + 1075" by simp
  then show ?thesis using assms(3) by (simp add: double_exponent_def)
qed

lemma double_exponent_le:
  assumes "\<bar>x\<bar> < 2 powi (e + 1)" "- 1022 \<le> e"
  shows "double_exponent x \<le> e"
proof -
  have e1: "0 \<le> (e + 1) + int 1074" using assms(2) by simp
  have "\<bar>x\<bar> * 2 ^ 1074 < (2::real) ^ nat (e + 1 + int 1074)"
    using assms(1) powi_times_power[OF e1]
    by (metis mult_strict_right_mono zero_less_numeral zero_less_power)
  then have "\<bar>x\<bar> * 2 ^ 1074 < real_of_int (2 ^ nat (e + 1 + int 1074))" by simp
  then have "\<lfloor>\<bar>x\<bar> * 2 ^ 1074\<rfloor> < 2 ^ nat (e + 1 + int 1074)" by (simp only: floor_less_iff)
  then have "bitlen \<lfloor>\<bar>x\<bar> * 2 ^ 1074\<rfloor> \<le> e + 1 + int 1074"
    using e1 by (simp add: bitlen_le_iff_power)
  then show ?thesis using assms(2) by (simp add: double_exponent_def)
qed

lemma double_exponent_ge: "- 1022 \<le> double_exponent x"
  by (simp add: double_exponent_def)

lemma to_double_unit:
  "to_double x =
     real_of_int (round_half_even (x / 2 powi (double_exponent x - 52))) *
       2 powi (double_exponent x - 52)"
  by (simp add: to_double_def Let_def)

lemma to_double_error_unit: "\<bar>to_double x - x\<bar> \<le> 2 powi (double_exponent x - 53)"
proof -
  let ?u = "(2::real) powi (double_exponent x - 52)"
  have u: "0 < ?u" by simp
  have "\<bar>to_double x - x\<bar> = \<bar>real_of_int (round_half_even (x / ?u)) - x / ?u\<bar> * ?u"
  proof -
    have "to_double x - x = (real_of_int (round_half_even (x / ?u)) - x / ?u) * ?u"
      using u by (simp add: to_double_unit field_simps)
    then show ?thesis using u by (simp add: abs_mult)
  qed
  also have "\<dots> \<le> 1 / 2 * ?u"
    using round_half_even_error[of "x / ?u"] u by (intro mult_right_mono) simp_all
  also have "1 / 2 * ?u = 2 powi (double_exponent x - 53)"
  proof -
    have "(2::real) powi ((double_exponent x - 53) + 1) =
            2 powi (double_exponent x - 53) * 2 powi 1"
      by (rule power_int_add) simp
    then have "?u = 2 powi (double_exponent x - 53) * 2" by simp
    then show ?thesis by simp
  qed
  finally show ?thesis .
qed

lemma to_double_error:
  assumes "\<bar>x\<bar> < 2 powi (e + 1)" "- 1022 \<le> e"
  shows "\<bar>to_double x - x\<bar> \<le> 2 powi (e - 53)"
proof -
  have "double_exponent x - 53 \<le> e - 53" using double_exponent_le[OF assms] by simp
  then have "(2::real) powi (double_exponent x - 53) \<le> 2 powi (e - 53)"
    by (intro power_int_increasing) simp_all
  then show ?thesis using to_double_error_unit[of x] by linarith
qed

lemma to_double_by_exponent:
  assumes "2 powi e \<le> \<bar>x\<bar>" "\<bar>x\<bar> < 2 powi (e + 1)" "- 1022 \<le> e"
  shows "to_double x = real_of_int (round_half_even (x / 2 powi (e - 52))) * 2 powi (e - 52)"
  by (simp add: to_double_unit double_exponent_eq[OF assms])

lemma double_exponent_lower:
  assumes "2 powi (- 1022) \<le> \<bar>x\<bar>"
  shows "2 powi (double_exponent x) \<le> \<bar>x\<bar>"
proof (cases "- 1022 \<le> bitlen \<lfloor>\<bar>x\<bar> * 2 ^ 1074\<rfloor> - 1075")
  case False
  then have "double_exponent x = - 1022" by (simp add: double_exponent_def)
  then show ?thesis using assms by simp
next
  case True
  let ?N = "\<lfloor>\<bar>x\<bar> * 2 ^ 1074\<rfloor>"
  have E: "double_exponent x = bitlen ?N - 1075" using True by (simp add: double_exponent_def)
  have pos: "0 < ?N" using True bitlen_eq_zero_iff[of ?N] by (cases "0 < ?N") auto
  have e0: "0 \<le> (bitlen ?N - 1075) + int 1074" using True by simp
  have "(2::real) powi (bitlen ?N - 1075) * 2 ^ 1074 = 2 ^ nat (bitlen ?N - 1075 + int 1074)"
    by (rule powi_times_power[OF e0])
  also have "nat (bitlen ?N - 1075 + int 1074) = nat (bitlen ?N - 1)" by simp
  also have "(2::real) ^ nat (bitlen ?N - 1) = real_of_int (2 ^ nat (bitlen ?N - 1))" by simp
  also have "\<dots> \<le> real_of_int ?N" using bitlen_bounds[OF pos] by (simp only: of_int_le_iff)
  also have "\<dots> \<le> \<bar>x\<bar> * 2 ^ 1074" by (rule of_int_floor_le)
  finally have "(2::real) powi (bitlen ?N - 1075) * 2 ^ 1074 \<le> \<bar>x\<bar> * 2 ^ 1074" .
  then have "(2::real) powi (bitlen ?N - 1075) \<le> \<bar>x\<bar>"
    by (rule mult_right_le_imp_le) simp
  then show ?thesis by (simp only: E)
qed

lemma to_double_exact:
  assumes x: "x = real_of_int n * 2 powi k" and n: "\<bar>n\<bar> < 2 ^ 53" and k: "- 1074 \<le> k"
  shows "to_double x = x"
proof -
  let ?E = "double_exponent x"
  have ax: "\<bar>x\<bar> = real_of_int \<bar>n\<bar> * 2 powi k" by (simp add: x abs_mult)
  have "real_of_int \<bar>n\<bar> < 2 ^ 53" using n by (metis of_int_less_numeral_power_cancel_iff)
  then have lt: "\<bar>x\<bar> < 2 ^ 53 * 2 powi k" unfolding ax by (intro mult_strict_right_mono) simp_all
  have p: "(2::real) ^ 53 * 2 powi k = 2 powi (53 + k)"
  proof -
    have "(2::real) powi (53 + k) = 2 powi 53 * 2 powi k" by (rule power_int_add) simp
    then show ?thesis by simp
  qed
  have le: "?E - 52 \<le> k"
  proof (cases "- 1022 \<le> 52 + k")
    case True
    have "\<bar>x\<bar> < 2 powi ((52 + k) + 1)" using lt p by (simp add: add.commute add.left_commute)
    then have "?E \<le> 52 + k" using True by (rule double_exponent_le)
    then show ?thesis by simp
  next
    case False
    then have "53 + k \<le> - 1022 + 1" by simp
    then have "(2::real) powi (53 + k) \<le> 2 powi (- 1022 + 1)"
      by (intro power_int_increasing) simp_all
    then have "\<bar>x\<bar> < 2 powi (- 1022 + 1)" using lt p by simp
    then have "?E \<le> - 1022" by (rule double_exponent_le) simp
    then show ?thesis using k by simp
  qed
  define m where "m = nat (k - (?E - 52))"
  define u :: real where "u = 2 powi (?E - 52)"
  have u: "0 < u" by (simp add: u_def)
  have km: "k = (?E - 52) + int m" using le by (simp add: m_def)
  have "(2::real) powi k = 2 powi (?E - 52) * 2 powi (int m)"
    by (subst km) (rule power_int_add, simp)
  then have pk: "(2::real) powi k = u * 2 ^ m" by (simp add: u_def)
  have xu: "x = real_of_int (n * 2 ^ m) * u" unfolding x pk by simp
  have "x / u = real_of_int (n * 2 ^ m)" using u by (subst xu) simp
  then have "round_half_even (x / u) = n * 2 ^ m"
    by (simp only: round_half_even_of_int)
  then have "to_double x = real_of_int (n * 2 ^ m) * u"
    unfolding to_double_unit u_def by (rule arg_cong)
  then show ?thesis using xu by simp
qed

lemma to_double_int: "\<bar>n\<bar> < 2 ^ 53 \<Longrightarrow> to_double (real_of_int n) = real_of_int n"
  using to_double_exact[of "real_of_int n" n 0] by simp

lemma to_double_quarters:
  "\<bar>n\<bar> < 2 ^ 53 \<Longrightarrow> to_double (real_of_int n / 4) = real_of_int n / 4"
  using to_double_exact[of "real_of_int n / 4" n "- 2"] by (simp add: power_int_minus)

lemma to_double_eval:
  assumes "2 powi e \<le> \<bar>x\<bar>" "\<bar>x\<bar> < 2 powi (e + 1)" "- 1022 \<le> e"
      and "real_of_int (round_half_even (x / 2 powi (e - 52))) * 2 powi (e - 52) = y"
  shows "to_double x = y"
  using to_double_by_exponent[OF assms(1,2,3)] assms(4) by simp

lemma parsed_ricu_quarters:
  assumes "data_ricu row = Some (real_of_int j / 4)" "1 \<le> j" "j \<le> 200"
  shows "parsed_ricu row = real_of_int j / 4"
proof -
  have "\<bar>j\<bar> < 2 ^ 53" using assms by simp
  then have "to_double (real_of_int j / 4) = real_of_int j / 4" by (rule to_double_quarters)
  then show ?thesis using assms by (simp add: parsed_ricu_def)
qed

subsection \<open>The saved score on doubles\<close>

text \<open>
  The clamped and rounded score is the double nearest to a whole number of hundredths
  between 0.51 and 50, it lies within 0.005 (and the rounding errors of the doubles, below
  \<open>10 powi (- 13)\<close>) of the clamped score, and it is exact on the quarters.
\<close>

lemma to_double_051: "to_double 0.51 = 2296835809958953 / 4503599627370496"
proof -
  have "to_double 0.51 =
          real_of_int (round_half_even (0.51 / 2 powi (- 1 - 52))) * 2 powi (- 1 - 52)"
    by (rule to_double_by_exponent) (simp_all add: power_int_minus)
  then show ?thesis by (simp add: round_half_even_def Let_def power_int_minus)
qed

lemma to_double_50: "to_double 50 = 50"
  using to_double_int[of 50] by simp

lemma Math_round_bounds: "x - 1 / 2 < real_of_int (Math_round x) \<and> real_of_int (Math_round x) \<le> x + 1 / 2"
  unfolding Math_round_def by linarith

lemma Math_round_of_int [simp]: "Math_round (real_of_int n) = n"
  unfolding Math_round_def by linarith

lemma clamp_and_round_facts:
  fixes x :: real
  defines "c \<equiv> min 50 (max (to_double 0.51) x)"
  defines "p \<equiv> fmul c 100"
  defines "q \<equiv> Math_round p"
  shows "clamp_and_round x = to_double (real_of_int q / 100)"
    and "51 \<le> q" and "q \<le> 5000"
    and "\<bar>real_of_int q / 100 - c\<bar> \<le> 1 / 200 + 1 / 100000000000000"
proof -
  show "clamp_and_round x = to_double (real_of_int q / 100)"
    by (simp add: clamp_and_round_def Let_def fdiv_def c_def p_def q_def)
  have c: "2296835809958953 / 4503599627370496 \<le> c" "c \<le> 50"
    unfolding c_def to_double_051 by simp_all
  have "\<bar>c * 100\<bar> < 2 powi (12 + 1)" using c by (simp add: abs_if)
  then have "\<bar>to_double (c * 100) - c * 100\<bar> \<le> 2 powi (12 - 53)"
    by (rule to_double_error) simp
  then have "\<bar>p - c * 100\<bar> \<le> 1 / 2199023255552"
    by (simp add: p_def fmul_def power_int_minus)
  then have pe: "p - c * 100 \<le> 1 / 2199023255552" "c * 100 - p \<le> 1 / 2199023255552"
    by linarith+
  have qb: "p - 1 / 2 < real_of_int q" "real_of_int q \<le> p + 1 / 2"
    using Math_round_bounds[of p] by (simp_all add: q_def)
  have "real_of_int 51 \<le> p + 1 / 2" using pe c by linarith
  then show "51 \<le> q" unfolding q_def Math_round_def by (simp only: le_floor_iff)
  have "p + 1 / 2 < real_of_int 5001" using pe c by linarith
  then have "q < 5001" unfolding q_def Math_round_def by (simp only: floor_less_iff)
  then show "q \<le> 5000" by simp
  show "\<bar>real_of_int q / 100 - c\<bar> \<le> 1 / 200 + 1 / 100000000000000"
  proof -
    have "real_of_int q / 100 - c \<le> 1 / 200 + 1 / 100000000000000"
      using pe qb by linarith
    moreover have "c - real_of_int q / 100 \<le> 1 / 200 + 1 / 100000000000000"
      using pe qb by linarith
    ultimately show ?thesis by linarith
  qed
qed

lemma to_double_hundredths_error:
  assumes "51 \<le> q" "q \<le> 5000"
  shows "\<bar>to_double (real_of_int q / 100) - real_of_int q / 100\<bar> \<le> 1 / 281474976710656"
proof -
  have "real_of_int q \<le> 5000" "51 \<le> real_of_int q" using assms by simp_all
  then have "\<bar>real_of_int q / 100\<bar> < 2 powi (5 + 1)" by (simp add: abs_if)
  then have "\<bar>to_double (real_of_int q / 100) - real_of_int q / 100\<bar> \<le> 2 powi (5 - 53)"
    by (rule to_double_error) simp
  then show ?thesis by (simp add: power_int_minus)
qed

lemma clamp_and_round_range:
  "to_double 0.51 \<le> clamp_and_round x \<and> clamp_and_round x \<le> 50 \<and>
   (\<exists>k::int. 51 \<le> k \<and> k \<le> 5000 \<and> clamp_and_round x = to_double (real_of_int k / 100))"
proof -
  define q where "q = Math_round (fmul (min 50 (max (to_double 0.51) x)) 100)"
  have v: "clamp_and_round x = to_double (real_of_int q / 100)"
    and q: "51 \<le> q" "q \<le> 5000"
    unfolding q_def by (rule clamp_and_round_facts)+
  have e: "\<bar>to_double (real_of_int q / 100) - real_of_int q / 100\<bar> \<le> 1 / 281474976710656"
    using q by (rule to_double_hundredths_error)
  have lo: "to_double 0.51 \<le> to_double (real_of_int q / 100)"
  proof (cases "q = 51")
    case True
    then show ?thesis by simp
  next
    case False
    then have "52 \<le> real_of_int q" using q by simp
    then show ?thesis using e unfolding to_double_051 by linarith
  qed
  have hi: "to_double (real_of_int q / 100) \<le> 50"
  proof (cases "q = 5000")
    case True
    then show ?thesis by (simp add: to_double_50)
  next
    case False
    then have "real_of_int q \<le> 4999" using q by simp
    then show ?thesis using e by linarith
  qed
  show ?thesis using lo hi q v by auto
qed

lemma clamp_and_round_tolerance:
  "\<bar>clamp_and_round x - min 50 (max 0.51 x)\<bar> \<le> 1 / 200 + 1 / 10000000000000"
proof -
  define c where "c = min 50 (max (to_double 0.51) x)"
  define q where "q = Math_round (fmul c 100)"
  have v: "clamp_and_round x = to_double (real_of_int q / 100)"
    and q: "51 \<le> q" "q \<le> 5000"
    and qc: "\<bar>real_of_int q / 100 - c\<bar> \<le> 1 / 200 + 1 / 100000000000000"
    unfolding q_def c_def by (rule clamp_and_round_facts)+
  have e: "\<bar>to_double (real_of_int q / 100) - real_of_int q / 100\<bar> \<le> 1 / 281474976710656"
    using q by (rule to_double_hundredths_error)
  have cm: "\<bar>c - min 50 (max 0.51 x)\<bar> \<le> 1 / 100000000000000000"
    unfolding c_def to_double_051 by (simp add: min_def max_def)
  show ?thesis unfolding v using e qc cm by linarith
qed

lemma clamp_and_round_quarters:
  assumes "3 \<le> j" "j \<le> 200"
  shows "clamp_and_round (real_of_int j / 4) = real_of_int j / 4"
proof -
  have j: "3 \<le> real_of_int j" "real_of_int j \<le> 200" using assms by simp_all
  have c: "min 50 (max (to_double 0.51) (real_of_int j / 4)) = real_of_int j / 4"
    unfolding to_double_051 using j by (simp add: min_def max_def)
  have "\<bar>25 * j\<bar> < 2 ^ 53" using assms by simp
  then have "to_double (real_of_int (25 * j)) = real_of_int (25 * j)" by (rule to_double_int)
  then have p: "fmul (real_of_int j / 4) 100 = real_of_int (25 * j)" by (simp add: fmul_def)
  have "\<bar>j\<bar> < 2 ^ 53" using assms by simp
  then have d: "to_double (real_of_int j / 4) = real_of_int j / 4" by (rule to_double_quarters)
  have "real_of_int (25 * j) / 100 = real_of_int j / 4" by simp
  then show ?thesis
    unfolding clamp_and_round_def Let_def c p Math_round_of_int fdiv_def using d by simp
qed

text \<open>The score on doubles stays in the range, whatever the branch.\<close>

lemma new_ricu_double_in_bounds:
  assumes "new_ricu_double dragged taskRows newIndex = Inr v"
  shows "to_double 0.51 \<le> v \<and> v \<le> 50 \<and>
         (\<exists>k::int. 51 \<le> k \<and> k \<le> 5000 \<and> v = to_double (real_of_int k / 100))"
proof -
  from assms obtain r where "v = clamp_and_round r"
    unfolding new_ricu_double_def Let_def by (auto split: sum.splits if_splits)
  then show ?thesis using clamp_and_round_range[of r] by simp
qed

lemma to_double_6_123: "to_double 6.123 = 6893885129597387 / 1125899906842624"
  by (rule to_double_eval[where e = 2])
     (simp_all add: round_half_even_def Let_def power_int_minus)

lemma to_double_6_623:
  "to_double (6893885129597387 / 1125899906842624 + 1 / 2) = 7456835083018699 / 1125899906842624"
  by (rule to_double_eval[where e = 2])
     (simp_all add: round_half_even_def Let_def power_int_minus)

lemma to_double_662_3:
  "to_double (7456835083018699 / 1125899906842624 * 100) = 5825652408608359 / 8796093022208"
  by (rule to_double_eval[where e = 9])
     (simp_all add: round_half_even_def Let_def power_int_minus)

lemma to_double_6_62: "to_double 6.62 = 7453457383298171 / 1125899906842624"
  by (rule to_double_eval[where e = 2])
     (simp_all add: round_half_even_def Let_def power_int_minus)

lemma parsed_ricu_6_123:
  "parsed_ricu (visible_row 6.123) = 6893885129597387 / 1125899906842624"
  using to_double_6_123 by (simp add: parsed_ricu_def)

lemma clamp_and_round_6_623:
  "clamp_and_round (7456835083018699 / 1125899906842624) = to_double 6.62"
proof -
  have "min 50 (max (to_double 0.51) (7456835083018699 / 1125899906842624))
          = (7456835083018699 / 1125899906842624 :: real)"
    unfolding to_double_051 by simp
  moreover have "Math_round (5825652408608359 / 8796093022208) = 662"
    by (simp add: Math_round_def)
  ultimately show ?thesis
    unfolding clamp_and_round_def Let_def fmul_def fdiv_def
    by (simp only: to_double_662_3) simp
qed

lemma to_double_small_int:
  assumes "\<bar>n\<bar> \<le> 1000"
  shows "to_double (real_of_int n) = real_of_int n"
proof -
  have "\<bar>n\<bar> < 2 ^ 53" using assms by simp
  then show ?thesis by (rule to_double_int)
qed

lemma parsed_ricu_small_int:
  assumes "data_ricu row = Some (real_of_int n)" "1 \<le> n" "n \<le> 1000"
  shows "parsed_ricu row = real_of_int n"
  using assms to_double_small_int[of n] by (simp add: parsed_ricu_def)

text \<open>
  The rounding is that of the doubles: above a row at 0.525 the sum 1.025 is the double
  just below it, its hundredfold rounds to 102, and the saved score is 1.02, where exact
  arithmetic would give 1.03.
\<close>

lemma drag_to_top_binary_rounding:
  "drag_reorder 2 (visible_row 2) [visible_row 2, visible_row 0.525, visible_row 0.51] 0
     = Inr (Some (to_double 1.02))"
proof -
  have t1: "to_double 0.525 = 4728779608739021 / 9007199254740992"
    by (rule to_double_eval[where e = "- 1"])
       (simp_all add: round_half_even_def Let_def power_int_minus)
  have t2: "to_double (4728779608739021 / 9007199254740992 + 1 / 2)
              = 2308094809027379 / 2251799813685248"
    by (rule to_double_eval[where e = 0])
       (simp_all add: round_half_even_def Let_def power_int_minus)
  have t3: "to_double (2308094809027379 / 2251799813685248 * 100)
              = 7212796278210559 / 70368744177664"
    by (rule to_double_eval[where e = 6])
       (simp_all add: round_half_even_def Let_def power_int_minus)
  have p: "parsed_ricu (visible_row 0.525) = 4728779608739021 / 9007199254740992"
    using t1 by (simp add: parsed_ricu_def)
  have s: "fadd (parsed_ricu (visible_row 0.525)) 0.5 = 2308094809027379 / 2251799813685248"
    unfolding p fadd_def using t2 by simp
  have m: "min 50 (max (to_double 0.51) (2308094809027379 / 2251799813685248))
          = (2308094809027379 / 2251799813685248 :: real)"
    unfolding to_double_051 by simp
  have r: "Math_round (7212796278210559 / 70368744177664) = 102"
    by (simp add: Math_round_def)
  have c: "clamp_and_round (2308094809027379 / 2251799813685248) = to_double 1.02"
    using m r unfolding clamp_and_round_def Let_def fmul_def fdiv_def
    by (simp only: t3) simp
  have "row_score [visible_row 2, visible_row 0.525, visible_row 0.51] 1
          = Inr (parsed_ricu (visible_row 0.525))"
    by (simp add: row_score_def)
  then have "new_ricu_double (visible_row 2)
               [visible_row 2, visible_row 0.525, visible_row 0.51] 0
             = Inr (clamp_and_round (min 50 (2308094809027379 / 2251799813685248)))"
    unfolding new_ricu_double_def Let_def s[symmetric] by simp
  also have "min 50 (2308094809027379 / 2251799813685248 :: real)
               = 2308094809027379 / 2251799813685248" by simp
  finally show ?thesis unfolding drag_reorder_def c by simp
qed

text \<open>
  Claim C5, as stated: a row dragged to index 0 in a list of at least two visible tasks
  gets min(50, score of the row below + 0.5). With the row below at 6.123 the code saves
  the double nearest to 6.62, which is neither the sum of the doubles nor 6.623: the score
  is rounded to two decimal places after the formula. And the index is the one in the list
  of all rows, those hidden by the search filter included: with a hidden row at 20 above
  the visible rows 10, 6 and 2, the row at 2 dropped at the top of the visible rows lands
  at index 1 and gets the average 15 of its two neighbours, not 10.5.
\<close>

theorem drag_to_top_counterexample:
  "drag_reorder 2 (visible_row 2) [visible_row 2, visible_row 6.123, visible_row 6] 0
     = Inr (Some (to_double 6.62)) \<and>
   to_double 6.62 \<noteq> min 50 (fadd (parsed_ricu (visible_row 6.123)) 0.5) \<and>
   to_double 6.62 \<noteq> min 50 (6.123 + 0.5) \<and>
   visible_rows [hidden_row 20, visible_row 2, visible_row 10, visible_row 6]
     = [visible_row 2, visible_row 10, visible_row 6] \<and>
   visible_position [hidden_row 20, visible_row 2, visible_row 10, visible_row 6] 1 = 0 \<and>
   drag_reorder 3 (visible_row 2)
       [hidden_row 20, visible_row 2, visible_row 10, visible_row 6] 1
     = Inr (Some 15) \<and>
   min 50 (fadd (parsed_ricu (visible_row 10)) 0.5) = 10.5"
proof -
  have s: "fadd (parsed_ricu (visible_row 6.123)) 0.5 = 7456835083018699 / 1125899906842624"
    unfolding parsed_ricu_6_123 fadd_def using to_double_6_623 by simp
  have a: "drag_reorder 2 (visible_row 2) [visible_row 2, visible_row 6.123, visible_row 6] 0
             = Inr (Some (to_double 6.62))"
  proof -
    have "row_score [visible_row 2, visible_row 6.123, visible_row 6] 1
            = Inr (parsed_ricu (visible_row 6.123))"
      by (simp add: row_score_def)
    then have "new_ricu_double (visible_row 2)
                 [visible_row 2, visible_row 6.123, visible_row 6] 0
               = Inr (clamp_and_round (min 50 (7456835083018699 / 1125899906842624)))"
      unfolding new_ricu_double_def Let_def s[symmetric] by simp
    also have "min 50 (7456835083018699 / 1125899906842624 :: real)
                 = 7456835083018699 / 1125899906842624" by simp
    finally show ?thesis unfolding drag_reorder_def clamp_and_round_6_623 by simp
  qed
  have b: "to_double 6.62 \<noteq> min 50 (fadd (parsed_ricu (visible_row 6.123)) 0.5)"
    unfolding s to_double_6_62 by simp
  have c: "to_double 6.62 \<noteq> min 50 (6.123 + 0.5)"
    unfolding to_double_6_62 by simp
  have d: "visible_rows [hidden_row 20, visible_row 2, visible_row 10, visible_row 6]
             = [visible_row 2, visible_row 10, visible_row 6]"
    by (simp add: visible_rows_def)
  have e: "visible_position [hidden_row 20, visible_row 2, visible_row 10, visible_row 6] 1 = 0"
    by (simp add: visible_position_def)
  have p20: "parsed_ricu (hidden_row 20) = 20"
    using parsed_ricu_small_int[of "hidden_row 20" 20] by simp
  have p10: "parsed_ricu (visible_row 10) = 10"
    using parsed_ricu_small_int[of "visible_row 10" 10] by simp
  have t30: "to_double 30 = 30" using to_double_small_int[of 30] by simp
  have t15: "to_double 15 = 15" using to_double_small_int[of 15] by simp
  have c15: "clamp_and_round 15 = 15" using clamp_and_round_quarters[of 60] by simp
  have f: "drag_reorder 3 (visible_row 2)
             [hidden_row 20, visible_row 2, visible_row 10, visible_row 6] 1 = Inr (Some 15)"
  proof -
    have "row_score [hidden_row 20, visible_row 2, visible_row 10, visible_row 6] (1 - 1)
            = Inr 20"
      using p20 by (simp add: row_score_def)
    moreover have "row_score [hidden_row 20, visible_row 2, visible_row 10, visible_row 6] (1 + 1)
            = Inr 10"
      using p10 by (simp add: row_score_def)
    ultimately have "new_ricu_double (visible_row 2)
                 [hidden_row 20, visible_row 2, visible_row 10, visible_row 6] 1
               = Inr (clamp_and_round (fdiv (fadd 20 10) 2))"
      unfolding new_ricu_double_def Let_def by simp
    also have "fdiv (fadd 20 10) 2 = 15" by (simp add: fdiv_def fadd_def t30 t15)
    finally show ?thesis unfolding drag_reorder_def c15 by simp
  qed
  have t105: "to_double (21 / 2) = 21 / 2" using to_double_quarters[of 42] by simp
  have g: "min 50 (fadd (parsed_ricu (visible_row 10)) 0.5) = 10.5"
    unfolding p10 fadd_def using t105 by simp
  from a b c d e f g show ?thesis by (intro conjI)
qed

text \<open>
  Claim C5, amended: a row dragged from another index to index 0 of the task list (the
  list of all rows, those hidden by the search filter included) with at least two rows
  gets, with \<open>r\<close> the score parsed from the row that is then at index 1 (1 when the attribute
  is missing, not a number or 0), the score \<^verbatim>\<open>min(50, r + 0.5)\<close> clamped to 0.51 and 50 and
  rounded to two decimal places, all in double arithmetic: it is the double nearest to a
  whole number of hundredths between 0.51 and 50, and lies within 0.005 (up to the
  rounding errors of the doubles) of min(50, max(0.51, r + 0.5)). When \<open>r\<close> is a whole
  number of quarters between 0.25 and 50 the score is min(50, r + 0.5) exactly. For the
  rows 2, 10, 6 (the row with 2 dragged to the top) it is 10.5.
\<close>

theorem drag_to_top_score:
  assumes "2 \<le> length taskRows" "originalIndex \<noteq> 0"
  shows "\<exists>v. drag_reorder originalIndex dragged taskRows 0 = Inr (Some v) \<and>
             v = clamp_and_round (min 50 (fadd (parsed_ricu (taskRows ! 1)) 0.5)) \<and>
             \<bar>v - min 50 (max 0.51 (fadd (parsed_ricu (taskRows ! 1)) 0.5))\<bar>
               \<le> 1 / 200 + 1 / 10000000000000 \<and>
             (\<exists>k::int. 51 \<le> k \<and> k \<le> 5000 \<and> v = to_double (real_of_int k / 100)) \<and>
             (\<forall>j::int. 1 \<le> j \<and> j \<le> 200 \<and> parsed_ricu (taskRows ! 1) = real_of_int j / 4 \<longrightarrow>
                v = min 50 (parsed_ricu (taskRows ! 1) + 0.5))"
proof -
  define r where "r = parsed_ricu (taskRows ! 1)"
  define v where "v = clamp_and_round (min 50 (fadd r 0.5))"
  have n1: "length taskRows \<noteq> 1" using assms by simp
  have row: "row_score taskRows 1 = Inr r" using assms by (simp add: row_score_def r_def)
  have res: "drag_reorder originalIndex dragged taskRows 0 = Inr (Some v)"
    using assms(2) n1 row by (simp add: drag_reorder_def new_ricu_double_def v_def)
  have "min 50 (max 0.51 (min 50 (fadd r 0.5))) = min 50 (max 0.51 (fadd r 0.5))"
    by (simp add: min_def max_def)
  then have tol: "\<bar>v - min 50 (max 0.51 (fadd r 0.5))\<bar> \<le> 1 / 200 + 1 / 10000000000000"
    using clamp_and_round_tolerance[of "min 50 (fadd r 0.5)"] by (simp add: v_def)
  have hund: "\<exists>k::int. 51 \<le> k \<and> k \<le> 5000 \<and> v = to_double (real_of_int k / 100)"
    using clamp_and_round_range[of "min 50 (fadd r 0.5)"] by (simp add: v_def)
  have exact: "v = min 50 (r + 0.5)" if j: "1 \<le> j" "j \<le> 200" "r = real_of_int j / 4" for j :: int
  proof -
    have "\<bar>j + 2\<bar> < 2 ^ 53" using j by simp
    then have td: "to_double (real_of_int (j + 2) / 4) = real_of_int (j + 2) / 4"
      by (rule to_double_quarters)
    have eq: "r + 0.5 = real_of_int (j + 2) / 4" using j(3) by simp
    have s: "fadd r 0.5 = real_of_int (j + 2) / 4" unfolding fadd_def eq by (rule td)
    define i where "i = min 200 (j + 2)"
    have i: "3 \<le> i" "i \<le> 200" using j by (simp_all add: i_def)
    have m: "min 50 (real_of_int (j + 2) / 4) = real_of_int i / 4"
      by (simp add: i_def min_def)
    have "v = clamp_and_round (real_of_int i / 4)" unfolding v_def s m ..
    also have "\<dots> = real_of_int i / 4" using i by (rule clamp_and_round_quarters)
    also have "\<dots> = min 50 (r + 0.5)" unfolding eq m ..
    finally show ?thesis .
  qed
  have "drag_reorder originalIndex dragged taskRows 0 = Inr (Some v) \<and>
             v = v \<and>
             \<bar>v - min 50 (max 0.51 (fadd r 0.5))\<bar> \<le> 1 / 200 + 1 / 10000000000000 \<and>
             (\<exists>k::int. 51 \<le> k \<and> k \<le> 5000 \<and> v = to_double (real_of_int k / 100)) \<and>
             (\<forall>j::int. 1 \<le> j \<and> j \<le> 200 \<and> r = real_of_int j / 4 \<longrightarrow> v = min 50 (r + 0.5))"
  proof (intro conjI allI impI)
    fix j :: int
    assume "1 \<le> j \<and> j \<le> 200 \<and> r = real_of_int j / 4"
    then show "v = min 50 (r + 0.5)" using exact[of j] by simp
  qed (rule res, rule refl, rule tol, rule hund)
  then have "\<exists>w. drag_reorder originalIndex dragged taskRows 0 = Inr (Some w) \<and>
             w = v \<and>
             \<bar>w - min 50 (max 0.51 (fadd r 0.5))\<bar> \<le> 1 / 200 + 1 / 10000000000000 \<and>
             (\<exists>k::int. 51 \<le> k \<and> k \<le> 5000 \<and> w = to_double (real_of_int k / 100)) \<and>
             (\<forall>j::int. 1 \<le> j \<and> j \<le> 200 \<and> r = real_of_int j / 4 \<longrightarrow> w = min 50 (r + 0.5))"
    by (rule exI[of _ v])
  then show ?thesis unfolding v_def r_def .
qed

theorem drag_to_top_score_witness:
  "2 \<le> length [visible_row 2, visible_row 10, visible_row 6] \<and> (2::int) \<noteq> 0 \<and>
   drag_reorder 2 (visible_row 2) [visible_row 2, visible_row 10, visible_row 6] 0
     = Inr (Some 10.5)"
proof -
  let ?rows = "[visible_row 2, visible_row 10, visible_row 6]"
  have len: "2 \<le> length ?rows" and ne: "(2::int) \<noteq> 0" by simp_all
  have p: "parsed_ricu (?rows ! 1) = real_of_int 40 / 4"
    using parsed_ricu_quarters[of "visible_row 10" 40] by simp
  from drag_to_top_score[of ?rows 2 "visible_row 2", OF len ne]
  obtain v where v: "drag_reorder 2 (visible_row 2) ?rows 0 = Inr (Some v)"
    and ex: "\<forall>j::int. 1 \<le> j \<and> j \<le> 200 \<and> parsed_ricu (?rows ! 1) = real_of_int j / 4 \<longrightarrow>
                v = min 50 (parsed_ricu (?rows ! 1) + 0.5)"
    by (elim exE conjE) (rule that)
  have "1 \<le> (40::int) \<and> (40::int) \<le> 200 \<and> parsed_ricu (?rows ! 1) = real_of_int 40 / 4"
    using p by simp
  with spec[OF ex, of 40] have "v = min 50 (parsed_ricu (?rows ! 1) + 0.5)" by (rule mp)
  then have "v = 10.5" unfolding p by simp
  with v len ne show ?thesis by simp
qed


section \<open>Properties of sleep mode\<close>

lemma send_main_fields [simp]:
  "isSleeping (send_main m s) = isSleeping s"
  "sleepTimer (send_main m s) = sleepTimer s"
  "intervals (send_main m s) = intervals s"
  "next_timer (send_main m s) = next_timer s"
  "widget_opacity (send_main m s) = widget_opacity s"
  "main_visible (send_main m s) = main_visible s"
  by (simp_all add: send_main_def split: option.splits)

lemma send_widget_fields [simp]:
  "isSleeping (send_widget m s) = isSleeping s"
  "sleepTimer (send_widget m s) = sleepTimer s"
  "intervals (send_widget m s) = intervals s"
  "next_timer (send_widget m s) = next_timer s"
  "widget_opacity (send_widget m s) = widget_opacity s"
  "main_visible (send_widget m s) = main_visible s"
  by (simp_all add: send_widget_def split: option.splits)

lemma set_opacity_fields [simp]:
  "isSleeping (set_opacity v s) = isSleeping s"
  "sleepTimer (set_opacity v s) = sleepTimer s"
  "intervals (set_opacity v s) = intervals s"
  "next_timer (set_opacity v s) = next_timer s"
  "main_visible (set_opacity v s) = main_visible s"
  "sent (set_opacity v s) = sent s"
  by (simp_all add: set_opacity_def split: option.splits)

lemma set_main_visible_fields [simp]:
  "isSleeping (set_main_visible b s) = isSleeping s"
  "sleepTimer (set_main_visible b s) = sleepTimer s"
  "intervals (set_main_visible b s) = intervals s"
  "next_timer (set_main_visible b s) = next_timer s"
  "widget_opacity (set_main_visible b s) = widget_opacity s"
  "sent (set_main_visible b s) = sent s"
  by (simp_all add: set_main_visible_def split: option.splits)

lemma sleep_inv_start: "sleep_inv s \<Longrightarrow> sleep_inv (start_sleep_mode hours minutes s)"
  by (auto simp: sleep_inv_def start_sleep_mode_def Let_def setInterval_def)

lemma sleep_inv_wakeUp: "sleep_inv s \<Longrightarrow> sleep_inv (wakeUp s)"
  by (auto simp: sleep_inv_def wakeUp_def Let_def clear_sleep_timer_def)

lemma sleep_inv_callback: "sleep_inv s \<Longrightarrow> sleep_inv (interval_callback h s)"
  by (auto simp: interval_callback_def Let_def sleep_inv_wakeUp split: option.splits)
     (auto simp: sleep_inv_def split: if_splits)

lemma sleep_inv_closed: "sleep_inv s \<Longrightarrow> sleep_inv (window_all_closed s)"
  by (auto simp: sleep_inv_def window_all_closed_def clear_sleep_timer_def)

lemma sleep_inv_event: "sleep_inv (apply_event e s)" if "sleep_inv s"
proof (cases e)
  case (WindowsChanged w m)
  then show ?thesis using that by (auto simp: sleep_inv_def)
qed (use that in \<open>auto simp: sleep_inv_start sleep_inv_wakeUp sleep_inv_callback sleep_inv_closed\<close>)

lemma reachable_inv: "reachable s \<Longrightarrow> sleep_inv s"
proof (induction rule: reachable.induct)
  case (reachable_startup w m)
  show ?case by (simp add: sleep_inv_def startup_def)
next
  case (reachable_event s e)
  then show ?case by (simp add: sleep_inv_event)
qed

lemma started: "start_sleep_mode 1 30 (startup (Some 1) (Some True)) =
   \<lparr>isSleeping = True, sleepTimer = Some 0, intervals = [(0, 90)], next_timer = Suc 0,
    widget_opacity = Some 0.7, main_visible = Some False,
    sent = [(to_widget, main_window_hidden_for_sleep), (to_main, update_sleep_timer 1 30),
            (to_widget, update_sleep_timer 1 30)]\<rparr>"
  by (simp add: start_sleep_mode_def startup_def Let_def set_opacity_def set_main_visible_def
      send_widget_def send_main_def setInterval_def)

lemma count_ended_send_main [simp]:
  "m \<noteq> sleep_mode_ended \<Longrightarrow> count_ended t (send_main m s) = count_ended t s"
  by (simp add: count_ended_def send_main_def split: option.splits)

lemma count_ended_send_widget [simp]:
  "m \<noteq> sleep_mode_ended \<Longrightarrow> count_ended t (send_widget m s) = count_ended t s"
  by (simp add: count_ended_def send_widget_def split: option.splits)

lemma count_ended_intervals [simp]:
  "count_ended t (s\<lparr>intervals := x\<rparr>) = count_ended t s"
  by (simp add: count_ended_def)

lemma minute_tick_running:
  assumes "intervals s = [(h, t)]" "0 < t"
  shows "minute_tick s =
           send_widget (update_sleep_timer ((t - 1) div 60) ((t - 1) mod 60))
             (send_main (update_sleep_timer ((t - 1) div 60) ((t - 1) mod 60))
                (s\<lparr>intervals := [(h, t - 1)]\<rparr>))"
  using assms by (simp add: minute_tick_def interval_callback_def Let_def)

lemma minute_tick_expired:
  assumes "intervals s = [(h, t)]" "t \<le> 0"
  shows "minute_tick s = wakeUp s"
  using assms by (simp add: minute_tick_def interval_callback_def)

lemma countdown:
  assumes "intervals s = [(h, t)]" "int n \<le> t"
  shows "intervals ((minute_tick ^^ n) s) = [(h, t - int n)] \<and>
         isSleeping ((minute_tick ^^ n) s) = isSleeping s \<and>
         sleepTimer ((minute_tick ^^ n) s) = sleepTimer s \<and>
         widget_opacity ((minute_tick ^^ n) s) = widget_opacity s \<and>
         main_visible ((minute_tick ^^ n) s) = main_visible s \<and>
         count_ended tg ((minute_tick ^^ n) s) = count_ended tg s"
  using assms
proof (induction n)
  case 0
  then show ?case by simp
next
  case (Suc n)
  let ?s = "(minute_tick ^^ n) s"
  have ih: "intervals ?s = [(h, t - int n)]" "isSleeping ?s = isSleeping s"
    "sleepTimer ?s = sleepTimer s" "widget_opacity ?s = widget_opacity s"
    "main_visible ?s = main_visible s" "count_ended tg ?s = count_ended tg s"
    using Suc by simp_all
  have pos: "0 < t - int n" using Suc.prems by simp
  have step: "(minute_tick ^^ Suc n) s = minute_tick ?s" by simp
  show ?case
    unfolding step minute_tick_running[OF ih(1) pos]
    using ih by (simp add: algebra_simps)
qed

lemma wakeUp_effect:
  assumes "intervals s = [(h, t)]" "sleepTimer s = Some h"
  shows "\<not> isSleeping (wakeUp s) \<and> intervals (wakeUp s) = [] \<and> sleepTimer (wakeUp s) = None \<and>
         count_ended to_widget (wakeUp s) =
           count_ended to_widget s + (case widget_opacity s of None \<Rightarrow> 0 | Some v \<Rightarrow> 1) \<and>
         count_ended to_main (wakeUp s) =
           count_ended to_main s + (case main_visible s of None \<Rightarrow> 0 | Some v \<Rightarrow> 1)"
  using assms
  by (simp add: wakeUp_def Let_def clear_sleep_timer_def count_ended_def send_main_def
      send_widget_def set_opacity_def set_main_visible_def split: option.splits)

text \<open>
  For every duration: after as many ticks as the duration has minutes the sleep is still
  on and no \<^verbatim>\<open>sleep-mode-ended\<close> has been added; one tick later it is over.
\<close>

lemma start_sleep_mode_fresh:
  assumes "\<not> isSleeping s"
  shows "intervals (start_sleep_mode hours minutes s) =
           intervals s @ [(next_timer s, hours * 60 + minutes)] \<and>
         isSleeping (start_sleep_mode hours minutes s) \<and>
         sleepTimer (start_sleep_mode hours minutes s) = Some (next_timer s) \<and>
         count_ended t (start_sleep_mode hours minutes s) = count_ended t s"
  using assms
  by (simp add: start_sleep_mode_def Let_def setInterval_def count_ended_def send_main_def
      send_widget_def set_opacity_def set_main_visible_def split: option.splits)

lemma sleep_mode_lasts_one_tick_longer:
  assumes "\<not> isSleeping s" "intervals s = []" "0 \<le> hours * 60 + minutes"
  shows "isSleeping ((minute_tick ^^ nat (hours * 60 + minutes)) (start_sleep_mode hours minutes s)) \<and>
         count_ended t ((minute_tick ^^ nat (hours * 60 + minutes)) (start_sleep_mode hours minutes s))
           = count_ended t s \<and>
         \<not> isSleeping ((minute_tick ^^ Suc (nat (hours * 60 + minutes)))
                         (start_sleep_mode hours minutes s))"
proof -
  let ?s0 = "start_sleep_mode hours minutes s"
  let ?n = "nat (hours * 60 + minutes)"
  let ?sn = "(minute_tick ^^ ?n) ?s0"
  have s0: "intervals ?s0 = [(next_timer s, hours * 60 + minutes)]" "isSleeping ?s0"
    "sleepTimer ?s0 = Some (next_timer s)" "count_ended t ?s0 = count_ended t s"
    using start_sleep_mode_fresh[OF assms(1), of hours minutes t] assms(2) by simp_all
  have le: "int ?n \<le> hours * 60 + minutes" using assms(3) by simp
  have sn: "intervals ?sn = [(next_timer s, 0)]" "isSleeping ?sn"
    "sleepTimer ?sn = Some (next_timer s)" "count_ended t ?sn = count_ended t s"
    using countdown[OF s0(1) le, of t] s0 assms(3) by simp_all
  have "(minute_tick ^^ Suc ?n) ?s0 = wakeUp ?sn"
    using minute_tick_expired[OF sn(1)] by simp
  then have "\<not> isSleeping ((minute_tick ^^ Suc ?n) ?s0)"
    using wakeUp_effect[OF sn(1) sn(3)] by simp
  then show ?thesis using sn by simp
qed


text \<open>
  Claim C2 says that 90 minute ticks after \<^verbatim>\<open>start-sleep-mode\<close> with 1 hour 30 minutes
  end the sleep, with one \<^verbatim>\<open>sleep-mode-ended\<close> message. In the code the interval callback
  only counts down while \<^verbatim>\<open>totalMinutes > 0\<close> and calls \<^verbatim>\<open>wakeUp\<close> on the tick after the
  count has reached 0: after 90 ticks the count is 0, \<^verbatim>\<open>isSleeping\<close> is still set and no
  \<^verbatim>\<open>sleep-mode-ended\<close> has been sent; the 91st tick wakes up and sends one to each window.
\<close>

theorem sleep_90_minutes_still_sleeping:
  "isSleeping ((minute_tick ^^ 90) (start_sleep_mode 1 30 (startup (Some 1) (Some True)))) \<and>
   intervals ((minute_tick ^^ 90) (start_sleep_mode 1 30 (startup (Some 1) (Some True)))) = [(0, 0)] \<and>
   count_ended to_widget
     ((minute_tick ^^ 90) (start_sleep_mode 1 30 (startup (Some 1) (Some True)))) = 0 \<and>
   count_ended to_main
     ((minute_tick ^^ 90) (start_sleep_mode 1 30 (startup (Some 1) (Some True)))) = 0 \<and>
   \<not> isSleeping ((minute_tick ^^ 91) (start_sleep_mode 1 30 (startup (Some 1) (Some True)))) \<and>
   count_ended to_widget
     ((minute_tick ^^ 91) (start_sleep_mode 1 30 (startup (Some 1) (Some True)))) = 1 \<and>
   count_ended to_main
     ((minute_tick ^^ 91) (start_sleep_mode 1 30 (startup (Some 1) (Some True)))) = 1"
proof -
  let ?s0 = "start_sleep_mode 1 30 (startup (Some 1) (Some True))"
  let ?s90 = "(minute_tick ^^ 90) ?s0"
  have s0: "intervals ?s0 = [(0, 90)]" "isSleeping ?s0" "sleepTimer ?s0 = Some 0"
    "widget_opacity ?s0 = Some 0.7" "main_visible ?s0 = Some False"
    "count_ended to_widget ?s0 = 0" "count_ended to_main ?s0 = 0"
    by (simp_all add: started count_ended_def)
  have le: "int 90 \<le> 90" by simp
  have at90: "intervals ?s90 = [(0, 0)]" "isSleeping ?s90" "sleepTimer ?s90 = Some 0"
    "widget_opacity ?s90 = Some 0.7" "main_visible ?s90 = Some False"
    "count_ended to_widget ?s90 = 0" "count_ended to_main ?s90 = 0"
    using countdown[OF s0(1) le, of to_widget] countdown[OF s0(1) le, of to_main] s0
    by simp_all
  have "(minute_tick ^^ 91) ?s0 = minute_tick ?s90"
  proof -
    have "(91::nat) = Suc 90" by simp
    then show ?thesis by (simp only: funpow.simps o_apply)
  qed
  then have s91: "(minute_tick ^^ 91) ?s0 = wakeUp ?s90"
    using minute_tick_expired[OF at90(1)] by simp
  show ?thesis
    unfolding s91 using at90 wakeUp_effect[OF at90(1) at90(3)] by simp
qed


text \<open>
  Claim C10: in every state the handlers can reach, a \<^verbatim>\<open>start-sleep-mode\<close> request that
  arrives while a countdown interval runs changes nothing (the whole state, with the
  remaining minutes, the widget's opacity, the windows' visibility and the messages sent,
  stays as it is), and at most one interval runs, before and after the request.
\<close>

theorem start_sleep_mode_while_sleeping:
  assumes "reachable s"
  shows "(intervals s \<noteq> [] \<longrightarrow> start_sleep_mode hours minutes s = s) \<and>
         length (intervals s) \<le> 1 \<and>
         length (intervals (start_sleep_mode hours minutes s)) \<le> 1"
proof -
  have inv: "sleep_inv s" using assms by (rule reachable_inv)
  have inv': "sleep_inv (start_sleep_mode hours minutes s)" using inv by (rule sleep_inv_start)
  have "intervals s \<noteq> [] \<Longrightarrow> isSleeping s" using inv by (auto simp: sleep_inv_def)
  then have "intervals s \<noteq> [] \<longrightarrow> start_sleep_mode hours minutes s = s"
    by (simp add: start_sleep_mode_def)
  moreover have "length (intervals s) \<le> 1" using inv by (auto simp: sleep_inv_def)
  moreover have "length (intervals (start_sleep_mode hours minutes s)) \<le> 1"
    using inv' by (auto simp: sleep_inv_def)
  ultimately show ?thesis by blast
qed

theorem start_sleep_mode_while_sleeping_witness:
  "intervals (start_sleep_mode 1 30 (startup (Some 1) (Some True))) \<noteq> [] \<and>
   start_sleep_mode 2 0 (start_sleep_mode 1 30 (startup (Some 1) (Some True))) =
     start_sleep_mode 1 30 (startup (Some 1) (Some True)) \<and>
   length (intervals (start_sleep_mode 1 30 (startup (Some 1) (Some True)))) \<le> 1"
proof -
  have "reachable (apply_event (StartSleepMode 1 30) (startup (Some 1) (Some True)))"
    by (rule reachable_event) (rule reachable_startup)
  then have r: "reachable (start_sleep_mode 1 30 (startup (Some 1) (Some True)))" by simp
  have ne: "intervals (start_sleep_mode 1 30 (startup (Some 1) (Some True))) \<noteq> []"
    by (simp add: started)
  from start_sleep_mode_while_sleeping[OF r, of 2 0] ne show ?thesis by blast
qed

section \<open>Properties of the authentication service\<close>

lemma verifyToken_requests:
  "tok \<noteq> [] \<Longrightarrow> snd (verifyToken J net tok s) = s\<lparr>requests := requests s @ [AuthStatus tok]\<rparr>"
  by (simp add: verifyToken_def fetch_def split: fetch_result.splits option.splits sum.splits)

lemma clearAuthData_notify:
  "clearAuthData False s =
     s\<lparr>user := JNull, authState := ''unauthenticated'',
       localStorage := (localStorage s)(ACCESS_TOKEN := None, REFRESH_TOKEN := None,
                         USER_DATA := None, AUTH_STATE \<mapsto> ''unauthenticated''),
       notifications := notifications s @ [(''unauthenticated'', JNull)]\<rparr>"
  by (simp add: clearAuthData_def notifyListeners_def Let_def)

lemma requests_clearAuthData [simp]: "requests (clearAuthData b s) = requests s"
  by (simp add: clearAuthData_def notifyListeners_def Let_def)

lemma refresh_attempt_no_token:
  "\<not> present (localStorage s REFRESH_TOKEN) \<Longrightarrow>
     refresh_attempt J net s = (Inr False, clearAuthData False s)"
  by (simp add: refresh_attempt_def)

lemma refresh_attempt_throws:
  assumes "localStorage s REFRESH_TOKEN = Some rt" "rt \<noteq> []"
      and "attempt_throws J (net (length (requests s)))"
  shows "\<exists>e. refresh_attempt J net s = (Inl e, s\<lparr>requests := requests s @ [AuthRefresh rt]\<rparr>)"
  using assms
  by (auto simp: refresh_attempt_def present_def fetch_def attempt_throws_def
      split: fetch_result.splits option.splits)

lemma refresh_attempt_returns:
  assumes "localStorage s REFRESH_TOKEN = Some rt" "rt \<noteq> []"
      and "\<not> attempt_throws J (net (length (requests s)))"
  shows "\<exists>b s1. refresh_attempt J net s = (Inr b, s1) \<and>
           requests s1 = requests s @ [AuthRefresh rt] \<and>
           (b \<longrightarrow> (\<exists>r. net (length (requests s)) = Responded r \<and> ok r) \<and>
                  localStorage s1 ACCESS_TOKEN \<noteq> None) \<and>
           (\<not> b \<longrightarrow> (\<exists>r. net (length (requests s)) = Responded r \<and> \<not> ok r) \<and>
                  s1 = clearAuthData False (s\<lparr>requests := requests s @ [AuthRefresh rt]\<rparr>))"
proof (cases "net (length (requests s))")
  case NetworkFailure
  then show ?thesis using assms by (simp add: attempt_throws_def)
next
  case (Responded r)
  show ?thesis
  proof (cases "ok r")
    case False
    then show ?thesis using assms Responded
      by (auto simp: refresh_attempt_def present_def fetch_def)
  next
    case True
    then obtain data where d: "J (body r) = Some data" "data \<noteq> JNull" "data \<noteq> JUndefined"
      using assms Responded by (auto simp: attempt_throws_def split: option.splits)
    have "\<exists>tokens. get_prop data ''tokens'' = Inr tokens"
      using d(2,3) by (cases data) (simp_all split: option.splits)
    then obtain tokens where t: "get_prop data ''tokens'' = Inr tokens" by blast
    show ?thesis using assms Responded True d t
      by (auto simp: refresh_attempt_def present_def fetch_def storeTokens_def Let_def)
  qed
qed

lemma cleared_clearAuthData [simp]: "cleared (clearAuthData b s)"
  by (simp add: cleared_def clearAuthData_def notifyListeners_def Let_def)

lemma refresh_chain:
  assumes "localStorage s REFRESH_TOKEN = Some rt" "rt \<noteq> []" "retryCount \<le> 2"
  shows "\<exists>k. 1 \<le> k \<and> k + retryCount \<le> 3 \<and>
           requests (snd (refreshAccessToken J net retryCount s)) =
             requests s @ replicate k (AuthRefresh rt) \<and>
           (\<forall>i<k - 1. attempt_throws J (net (length (requests s) + i))) \<and>
           (attempt_throws J (net (length (requests s) + (k - 1))) \<longrightarrow>
              k + retryCount = 3 \<and> \<not> fst (refreshAccessToken J net retryCount s)) \<and>
           (\<not> fst (refreshAccessToken J net retryCount s) \<longrightarrow>
              cleared (snd (refreshAccessToken J net retryCount s))) \<and>
           (fst (refreshAccessToken J net retryCount s) \<longrightarrow>
              (\<exists>r. net (length (requests s) + (k - 1)) = Responded r \<and> ok r) \<and>
              localStorage (snd (refreshAccessToken J net retryCount s)) ACCESS_TOKEN \<noteq> None)"
  using assms
proof (induction J net retryCount s rule: refreshAccessToken.induct)
  case (1 J net retryCount s)
  let ?n = "length (requests s)"
  show ?case
  proof (cases "attempt_throws J (net ?n)")
    case False
    obtain b s1 where att: "refresh_attempt J net s = (Inr b, s1)"
      and reqs: "requests s1 = requests s @ [AuthRefresh rt]"
      and yes: "b \<longrightarrow> (\<exists>r. net ?n = Responded r \<and> ok r) \<and> localStorage s1 ACCESS_TOKEN \<noteq> None"
      and no: "\<not> b \<longrightarrow> s1 = clearAuthData False (s\<lparr>requests := requests s @ [AuthRefresh rt]\<rparr>)"
      using refresh_attempt_returns[of s rt J net] "1.prems"(1,2) False by blast
    have res: "refreshAccessToken J net retryCount s = (b, s1)"
      by (subst refreshAccessToken.simps) (simp add: att)
    have "1 \<le> (1::nat) \<and> 1 + retryCount \<le> 3 \<and>
           requests (snd (refreshAccessToken J net retryCount s)) =
             requests s @ replicate 1 (AuthRefresh rt) \<and>
           (\<forall>i<(1::nat) - 1. attempt_throws J (net (?n + i))) \<and>
           (attempt_throws J (net (?n + (1 - 1))) \<longrightarrow>
              1 + retryCount = 3 \<and> \<not> fst (refreshAccessToken J net retryCount s)) \<and>
           (\<not> fst (refreshAccessToken J net retryCount s) \<longrightarrow>
              cleared (snd (refreshAccessToken J net retryCount s))) \<and>
           (fst (refreshAccessToken J net retryCount s) \<longrightarrow>
              (\<exists>r. net (?n + (1 - 1)) = Responded r \<and> ok r) \<and>
              localStorage (snd (refreshAccessToken J net retryCount s)) ACCESS_TOKEN \<noteq> None)"
      using "1.prems"(3) reqs yes no False by (auto simp: res)
    then show ?thesis by blast
  next
    case True
    let ?s1 = "s\<lparr>requests := requests s @ [AuthRefresh rt]\<rparr>"
    obtain e where att: "refresh_attempt J net s = (Inl e, ?s1)"
      using refresh_attempt_throws[of s rt J net] "1.prems"(1,2) True by blast
    show ?thesis
    proof (cases "retryCount < 2")
      case False
      have res: "refreshAccessToken J net retryCount s = (False, clearAuthData False ?s1)"
        by (subst refreshAccessToken.simps) (simp add: att False)
      have rc: "retryCount = 2" using False "1.prems"(3) by simp
      have "1 \<le> (1::nat) \<and> 1 + retryCount \<le> 3 \<and>
           requests (snd (refreshAccessToken J net retryCount s)) =
             requests s @ replicate 1 (AuthRefresh rt) \<and>
           (\<forall>i<(1::nat) - 1. attempt_throws J (net (?n + i))) \<and>
           (attempt_throws J (net (?n + (1 - 1))) \<longrightarrow>
              1 + retryCount = 3 \<and> \<not> fst (refreshAccessToken J net retryCount s)) \<and>
           (\<not> fst (refreshAccessToken J net retryCount s) \<longrightarrow>
              cleared (snd (refreshAccessToken J net retryCount s))) \<and>
           (fst (refreshAccessToken J net retryCount s) \<longrightarrow>
              (\<exists>r. net (?n + (1 - 1)) = Responded r \<and> ok r) \<and>
              localStorage (snd (refreshAccessToken J net retryCount s)) ACCESS_TOKEN \<noteq> None)"
        unfolding res by (simp add: rc)
      then show ?thesis by blast
    next
      case lt: True
      have res: "refreshAccessToken J net retryCount s = refreshAccessToken J net (retryCount + 1) ?s1"
        by (subst refreshAccessToken.simps) (simp add: att lt)
      have st: "localStorage ?s1 REFRESH_TOKEN = Some rt" using "1.prems"(1) by simp
      have le: "retryCount + 1 \<le> 2" using lt by simp
      have len: "length (requests ?s1) = Suc ?n" by simp
      obtain k where k: "1 \<le> k" "k + (retryCount + 1) \<le> 3"
        "requests (snd (refreshAccessToken J net (retryCount + 1) ?s1)) =
             requests ?s1 @ replicate k (AuthRefresh rt)"
        "\<forall>i<k - 1. attempt_throws J (net (Suc ?n + i))"
        "attempt_throws J (net (Suc ?n + (k - 1))) \<longrightarrow>
              k + (retryCount + 1) = 3 \<and> \<not> fst (refreshAccessToken J net (retryCount + 1) ?s1)"
        "\<not> fst (refreshAccessToken J net (retryCount + 1) ?s1) \<longrightarrow>
              cleared (snd (refreshAccessToken J net (retryCount + 1) ?s1))"
        "fst (refreshAccessToken J net (retryCount + 1) ?s1) \<longrightarrow>
              (\<exists>r. net (Suc ?n + (k - 1)) = Responded r \<and> ok r) \<and>
              localStorage (snd (refreshAccessToken J net (retryCount + 1) ?s1)) ACCESS_TOKEN \<noteq> None"
        using "1.IH"[OF att[symmetric] refl lt st "1.prems"(2) le] unfolding len by blast
      have shift: "Suc ?n + (k - 1) = ?n + (Suc k - 1)" using k(1) by simp
      have early: "\<forall>i<Suc k - 1. attempt_throws J (net (?n + i))"
      proof (intro allI impI)
        fix i assume i: "i < Suc k - 1"
        show "attempt_throws J (net (?n + i))"
        proof (cases i)
          case 0
          then show ?thesis using True by simp
        next
          case (Suc j)
          then have "j < k - 1" using i by simp
          then have "attempt_throws J (net (Suc ?n + j))" using k(4) by blast
          then show ?thesis using Suc by simp
        qed
      qed
      have "1 \<le> Suc k \<and> Suc k + retryCount \<le> 3 \<and>
           requests (snd (refreshAccessToken J net retryCount s)) =
             requests s @ replicate (Suc k) (AuthRefresh rt) \<and>
           (\<forall>i<Suc k - 1. attempt_throws J (net (?n + i))) \<and>
           (attempt_throws J (net (?n + (Suc k - 1))) \<longrightarrow>
              Suc k + retryCount = 3 \<and> \<not> fst (refreshAccessToken J net retryCount s)) \<and>
           (\<not> fst (refreshAccessToken J net retryCount s) \<longrightarrow>
              cleared (snd (refreshAccessToken J net retryCount s))) \<and>
           (fst (refreshAccessToken J net retryCount s) \<longrightarrow>
              (\<exists>r. net (?n + (Suc k - 1)) = Responded r \<and> ok r) \<and>
              localStorage (snd (refreshAccessToken J net retryCount s)) ACCESS_TOKEN \<noteq> None)"
        unfolding res shift[symmetric]
        using k(1,2,3,5,6,7) early unfolding shift[symmetric] by simp
      then show ?thesis by blast
    qed
  qed
qed

lemmas auth_eval =
  init_def getAccessToken_def verifyToken_def refresh_attempt_def refreshAccessToken.simps
  fetch_def present_def ok_def storeTokens_def clearAuthData_def notifyListeners_def Let_def

text \<open>
  What \<^verbatim>\<open>init\<close> returns on the path through a successful refresh: a retry chain that
  ends in success changes neither the state nor the user, so the result is the state the
  storage held (or \<^verbatim>\<open>unauthenticated\<close> when it held none).
\<close>

lemma refresh_attempt_keeps_state:
  assumes "refresh_attempt J net s = (r, s1)" "r \<noteq> Inr False"
  shows "authState s1 = authState s \<and> user s1 = user s"
  using assms
  by (auto simp: refresh_attempt_def fetch_def storeTokens_def Let_def
      split: if_splits fetch_result.splits option.splits sum.splits)

lemma refreshAccessToken_keeps_state:
  "fst (refreshAccessToken J net retryCount s) \<Longrightarrow>
     authState (snd (refreshAccessToken J net retryCount s)) = authState s \<and>
     user (snd (refreshAccessToken J net retryCount s)) = user s"
proof (induction J net retryCount s rule: refreshAccessToken.induct)
  case (1 J net retryCount s)
  obtain r s1 where att: "refresh_attempt J net s = (r, s1)" by (cases "refresh_attempt J net s")
  show ?case
  proof (cases r)
    case (Inr b)
    have res: "refreshAccessToken J net retryCount s = (b, s1)"
      by (subst refreshAccessToken.simps) (simp add: att Inr)
    then have "b" using "1.prems" by simp
    then have "r \<noteq> Inr False" using Inr by simp
    then show ?thesis using refresh_attempt_keeps_state[OF att] res by simp
  next
    case (Inl e)
    then have keep: "authState s1 = authState s \<and> user s1 = user s"
      using refresh_attempt_keeps_state[OF att] by simp
    show ?thesis
    proof (cases "retryCount < 2")
      case True
      have res: "refreshAccessToken J net retryCount s = refreshAccessToken J net (retryCount + 1) s1"
        by (subst refreshAccessToken.simps) (simp add: att Inl True)
      have "fst (refreshAccessToken J net (retryCount + 1) s1)" using "1.prems" res by simp
      then show ?thesis using "1.IH"[OF att[symmetric] Inl True] keep res by simp
    next
      case False
      have "refreshAccessToken J net retryCount s = (False, clearAuthData False s1)"
        by (subst refreshAccessToken.simps) (simp add: att Inl False)
      then show ?thesis using "1.prems" by simp
    qed
  qed
qed

lemma verifyToken_keeps_state:
  "authState (snd (verifyToken J net tok s)) = authState s \<and>
   user (snd (verifyToken J net tok s)) = user s \<and>
   localStorage (snd (verifyToken J net tok s)) = localStorage s"
  by (simp add: verifyToken_def fetch_def split: fetch_result.splits option.splits sum.splits)

lemma init_returns_stored_state_after_refresh:
  assumes tok: "localStorage s ACCESS_TOKEN = Some tok" "tok \<noteq> []"
      and usr: "localStorage s USER_DATA = Some ud" "ud \<noteq> []" "J ud = Some u" "truthy u"
      and rt: "present (localStorage s REFRESH_TOKEN)"
      and start: "s0 = s\<lparr>authState := (if present (localStorage s AUTH_STATE)
                                         then the (localStorage s AUTH_STATE)
                                         else ''unauthenticated''), user := u\<rparr>"
      and invalid: "\<not> fst (verifyToken J net tok s0)"
      and refreshed: "fst (refreshAccessToken J net 0 (snd (verifyToken J net tok s0)))"
  shows "fst (init J net s) =
           (if present (localStorage s AUTH_STATE) then the (localStorage s AUTH_STATE)
            else ''unauthenticated'')"
proof -
  let ?st = "if present (localStorage s AUTH_STATE) then the (localStorage s AUTH_STATE)
             else ''unauthenticated''"
  obtain s1 where v: "verifyToken J net tok s0 = (False, s1)"
    using invalid by (cases "verifyToken J net tok s0") simp
  obtain s2 where r: "refreshAccessToken J net 0 s1 = (True, s2)"
    using refreshed v by (cases "refreshAccessToken J net 0 s1") simp
  have "authState s1 = ?st" using verifyToken_keeps_state[of J net tok s0] v start by simp
  moreover have "authState s2 = authState s1"
    using refreshAccessToken_keeps_state[of J net 0 s1] r by simp
  ultimately have a2: "authState s2 = ?st" by simp
  have "init J net s = (authState (notifyListeners s2), notifyListeners s2)"
    using tok usr rt v r start[symmetric]
    by (simp add: init_def Let_def present_def)
  then show ?thesis using a2 by (simp add: notifyListeners_def)
qed

text \<open>
  Claim C1 says that \<^verbatim>\<open>init\<close> ends in the state \<^verbatim>\<open>authenticated\<close> whenever token and
  user are stored, the verification fails and the refresh succeeds. The branch of \<^verbatim>\<open>init\<close>
  for a valid token sets the state to \<^verbatim>\<open>authenticated\<close>; the branch for a successful
  refresh sets nothing, so the state stays what the storage held. With the stored state
  \<^verbatim>\<open>unauthenticated\<close> (as \<^verbatim>\<open>handleDeepLinkError\<close> leaves it, tokens and user untouched)
  \<^verbatim>\<open>init\<close> stores the refreshed tokens and returns \<^verbatim>\<open>unauthenticated\<close>; with the stored
  state \<^verbatim>\<open>authenticated\<close> it returns \<^verbatim>\<open>authenticated\<close>.
\<close>

theorem init_refresh_keeps_stored_state:
  "fst (init sample_parse (\<lambda>n. if n = 0 then Responded unauthorized else Responded new_tokens)
          (stored_session ''unauthenticated'')) = ''unauthenticated'' \<and>
   localStorage (snd (init sample_parse
          (\<lambda>n. if n = 0 then Responded unauthorized else Responded new_tokens)
          (stored_session ''unauthenticated''))) ACCESS_TOKEN = Some ''new-access'' \<and>
   localStorage (snd (init sample_parse
          (\<lambda>n. if n = 0 then Responded unauthorized else Responded new_tokens)
          (stored_session ''unauthenticated''))) REFRESH_TOKEN = Some ''new-refresh'' \<and>
   fst (init sample_parse (\<lambda>n. if n = 0 then Responded unauthorized else Responded new_tokens)
          (stored_session ''authenticated'')) = ''authenticated''"
  by (simp add: auth_eval)

text \<open>
  Claim C6, as stated: the refresh request is retried only on a transport failure. A
  refresh answered three times by a 2xx response with a body that is not JSON is sent
  three times: \<^verbatim>\<open>response.json()\<close> throws inside the \<^verbatim>\<open>try\<close> block, and the \<^verbatim>\<open>catch\<close>
  block retries on every exception.
\<close>

theorem getAccessToken_retry_counterexample:
  "requests (snd (getAccessToken sample_parse
      (\<lambda>n. if n = 0 then Responded unauthorized else Responded html_page)
      (stored_session ''authenticated''))) =
     [AuthStatus ''old-access'', AuthRefresh ''old-refresh'', AuthRefresh ''old-refresh'',
      AuthRefresh ''old-refresh''] \<and>
   fst (getAccessToken sample_parse
      (\<lambda>n. if n = 0 then Responded unauthorized else Responded html_page)
      (stored_session ''authenticated'')) = None \<and>
   ok html_page"
  by (simp add: auth_eval)

text \<open>
  Claim C6, amended: for a call of \<^verbatim>\<open>getAccessToken\<close> with a stored token whose
  verification fails, one refresh chain runs. Without a stored refresh token no refresh
  request is sent, the session is cleared and the result is \<^verbatim>\<open>null\<close>. With one, between
  one and three refresh requests are sent; every request but the last was followed by an
  exception in the attempt (a transport failure, or a 2xx response whose body does not
  parse or parses to \<^verbatim>\<open>null\<close>); if the last attempt throws too, it is the third and the
  result is \<^verbatim>\<open>null\<close>; a non-2xx response ends the chain at once with the result
  \<^verbatim>\<open>null\<close>; whenever the result is \<^verbatim>\<open>null\<close> the session is cleared and the state is
  \<^verbatim>\<open>unauthenticated\<close>; otherwise the result is the stored access token, after a 2xx
  response.
\<close>

theorem getAccessToken_refresh_chain:
  assumes tok: "localStorage s ACCESS_TOKEN = Some tok" "tok \<noteq> []"
      and invalid: "\<not> fst (verifyToken J net tok s)"
  shows "(\<not> present (localStorage s REFRESH_TOKEN) \<longrightarrow>
            fst (getAccessToken J net s) = None \<and>
            cleared (snd (getAccessToken J net s)) \<and>
            requests (snd (getAccessToken J net s)) = requests s @ [AuthStatus tok]) \<and>
         (\<forall>rt. localStorage s REFRESH_TOKEN = Some rt \<and> rt \<noteq> [] \<longrightarrow>
            (\<exists>k. 1 \<le> k \<and> k \<le> 3 \<and>
               requests (snd (getAccessToken J net s)) =
                 requests s @ AuthStatus tok # replicate k (AuthRefresh rt) \<and>
               (\<forall>i. 1 \<le> i \<and> i < k \<longrightarrow> attempt_throws J (net (length (requests s) + i))) \<and>
               (attempt_throws J (net (length (requests s) + k)) \<longrightarrow>
                  k = 3 \<and> fst (getAccessToken J net s) = None) \<and>
               (\<forall>r. net (length (requests s) + k) = Responded r \<and> \<not> ok r \<longrightarrow>
                  fst (getAccessToken J net s) = None) \<and>
               (fst (getAccessToken J net s) = None \<longrightarrow>
                  cleared (snd (getAccessToken J net s))) \<and>
               (fst (getAccessToken J net s) \<noteq> None \<longrightarrow>
                  fst (getAccessToken J net s) =
                    localStorage (snd (getAccessToken J net s)) ACCESS_TOKEN \<and>
                  (\<exists>r. net (length (requests s) + k) = Responded r \<and> ok r))))"
proof -
  let ?n = "length (requests s)"
  let ?s1 = "s\<lparr>requests := requests s @ [AuthStatus tok]\<rparr>"
  have v: "verifyToken J net tok s = (False, ?s1)"
    using invalid verifyToken_requests[OF tok(2), of J net s]
    by (cases "verifyToken J net tok s") simp
  have g: "getAccessToken J net s =
             (case refreshAccessToken J net 0 ?s1 of
                (refreshed, s2) \<Rightarrow>
                  if refreshed then (localStorage s2 ACCESS_TOKEN, s2) else (None, s2))"
    using tok v by (simp add: getAccessToken_def present_def)
  have gfst: "fst (getAccessToken J net s) =
                (if fst (refreshAccessToken J net 0 ?s1)
                 then localStorage (snd (refreshAccessToken J net 0 ?s1)) ACCESS_TOKEN else None)"
    and gsnd: "snd (getAccessToken J net s) = snd (refreshAccessToken J net 0 ?s1)"
    unfolding g by (simp_all split: prod.splits)
  have part1: "fst (getAccessToken J net s) = None \<and>
            cleared (snd (getAccessToken J net s)) \<and>
            requests (snd (getAccessToken J net s)) = requests s @ [AuthStatus tok]"
    if no: "\<not> present (localStorage s REFRESH_TOKEN)"
  proof -
    have "\<not> present (localStorage ?s1 REFRESH_TOKEN)" using no by simp
    then have "refresh_attempt J net ?s1 = (Inr False, clearAuthData False ?s1)"
      by (rule refresh_attempt_no_token)
    then have "refreshAccessToken J net 0 ?s1 = (False, clearAuthData False ?s1)"
      by (subst refreshAccessToken.simps) simp
    then show ?thesis unfolding gfst gsnd by simp
  qed
  have part2: "\<exists>k. 1 \<le> k \<and> k \<le> 3 \<and>
               requests (snd (getAccessToken J net s)) =
                 requests s @ AuthStatus tok # replicate k (AuthRefresh rt) \<and>
               (\<forall>i. 1 \<le> i \<and> i < k \<longrightarrow> attempt_throws J (net (?n + i))) \<and>
               (attempt_throws J (net (?n + k)) \<longrightarrow>
                  k = 3 \<and> fst (getAccessToken J net s) = None) \<and>
               (\<forall>r. net (?n + k) = Responded r \<and> \<not> ok r \<longrightarrow>
                  fst (getAccessToken J net s) = None) \<and>
               (fst (getAccessToken J net s) = None \<longrightarrow>
                  cleared (snd (getAccessToken J net s))) \<and>
               (fst (getAccessToken J net s) \<noteq> None \<longrightarrow>
                  fst (getAccessToken J net s) =
                    localStorage (snd (getAccessToken J net s)) ACCESS_TOKEN \<and>
                  (\<exists>r. net (?n + k) = Responded r \<and> ok r))"
    if rt: "localStorage s REFRESH_TOKEN = Some rt" "rt \<noteq> []" for rt
  proof -
    let ?res = "refreshAccessToken J net 0 ?s1"
    have st: "localStorage ?s1 REFRESH_TOKEN = Some rt" using rt by simp
    have len: "length (requests ?s1) = Suc ?n" by simp
    have z: "(0::nat) \<le> 2" by simp
    from refresh_chain[OF st rt(2) z, of J net]
    obtain k where k0: "1 \<le> k \<and> k + 0 \<le> 3 \<and>
           requests (snd ?res) = requests ?s1 @ replicate k (AuthRefresh rt) \<and>
           (\<forall>i<k - 1. attempt_throws J (net (length (requests ?s1) + i))) \<and>
           (attempt_throws J (net (length (requests ?s1) + (k - 1))) \<longrightarrow>
              k + 0 = 3 \<and> \<not> fst ?res) \<and>
           (\<not> fst ?res \<longrightarrow> cleared (snd ?res)) \<and>
           (fst ?res \<longrightarrow>
              (\<exists>r. net (length (requests ?s1) + (k - 1)) = Responded r \<and> ok r) \<and>
              localStorage (snd ?res) ACCESS_TOKEN \<noteq> None)"
      by (elim exE) (rule that)
    have k1: "1 \<le> k" using k0 by simp
    have k3: "k \<le> 3" using k0 by simp
    have last: "Suc ?n + (k - 1) = ?n + k" using k1 by simp
    note kk = k0[unfolded len last]
    have kreq: "requests (snd ?res) = requests ?s1 @ replicate k (AuthRefresh rt)"
      using kk by simp
    have kearly: "\<forall>i<k - 1. attempt_throws J (net (Suc ?n + i))" using kk by simp
    have kthrow: "attempt_throws J (net (?n + k)) \<longrightarrow> k = 3 \<and> \<not> fst ?res" using kk by simp
    have kclear: "\<not> fst ?res \<longrightarrow> cleared (snd ?res)" using kk by simp
    have kok: "fst ?res \<longrightarrow> (\<exists>r. net (?n + k) = Responded r \<and> ok r)" using kk by simp
    have kstored: "fst ?res \<longrightarrow> localStorage (snd ?res) ACCESS_TOKEN \<noteq> None" using kk by simp
    have early: "\<forall>i. 1 \<le> i \<and> i < k \<longrightarrow> attempt_throws J (net (?n + i))"
    proof (intro allI impI)
      fix i assume i: "1 \<le> i \<and> i < k"
      then have "i - 1 < k - 1" by linarith
      then have "attempt_throws J (net (Suc ?n + (i - 1)))" using kearly by blast
      then show "attempt_throws J (net (?n + i))" using i by simp
    qed
    have none_iff: "fst (getAccessToken J net s) = None \<longleftrightarrow> \<not> fst ?res"
      unfolding gfst using kstored by auto
    have c3: "requests (snd (getAccessToken J net s)) =
                 requests s @ AuthStatus tok # replicate k (AuthRefresh rt)"
      unfolding gsnd kreq by simp
    have c5: "attempt_throws J (net (?n + k)) \<longrightarrow> k = 3 \<and> fst (getAccessToken J net s) = None"
      using kthrow unfolding none_iff by simp
    have c6: "\<forall>r. net (?n + k) = Responded r \<and> \<not> ok r \<longrightarrow> fst (getAccessToken J net s) = None"
      using kok unfolding none_iff by auto
    have c7: "fst (getAccessToken J net s) = None \<longrightarrow> cleared (snd (getAccessToken J net s))"
      using kclear unfolding none_iff gsnd by simp
    have c8: "fst (getAccessToken J net s) \<noteq> None \<longrightarrow>
                  fst (getAccessToken J net s) =
                    localStorage (snd (getAccessToken J net s)) ACCESS_TOKEN \<and>
                  (\<exists>r. net (?n + k) = Responded r \<and> ok r)"
    proof
      assume "fst (getAccessToken J net s) \<noteq> None"
      then have r: "fst ?res" using none_iff by simp
      then have "\<exists>r. net (?n + k) = Responded r \<and> ok r" using kok by simp
      moreover have "fst (getAccessToken J net s) =
                    localStorage (snd (getAccessToken J net s)) ACCESS_TOKEN"
        unfolding gsnd unfolding gfst using r by simp
      ultimately show "fst (getAccessToken J net s) =
                    localStorage (snd (getAccessToken J net s)) ACCESS_TOKEN \<and>
                  (\<exists>r. net (?n + k) = Responded r \<and> ok r)" by simp
    qed
    from k1 k3 c3 early c5 c6 c7 c8
    have "1 \<le> k \<and> k \<le> 3 \<and>
               requests (snd (getAccessToken J net s)) =
                 requests s @ AuthStatus tok # replicate k (AuthRefresh rt) \<and>
               (\<forall>i. 1 \<le> i \<and> i < k \<longrightarrow> attempt_throws J (net (?n + i))) \<and>
               (attempt_throws J (net (?n + k)) \<longrightarrow>
                  k = 3 \<and> fst (getAccessToken J net s) = None) \<and>
               (\<forall>r. net (?n + k) = Responded r \<and> \<not> ok r \<longrightarrow>
                  fst (getAccessToken J net s) = None) \<and>
               (fst (getAccessToken J net s) = None \<longrightarrow>
                  cleared (snd (getAccessToken J net s))) \<and>
               (fst (getAccessToken J net s) \<noteq> None \<longrightarrow>
                  fst (getAccessToken J net s) =
                    localStorage (snd (getAccessToken J net s)) ACCESS_TOKEN \<and>
                  (\<exists>r. net (?n + k) = Responded r \<and> ok r))"
      by (intro conjI)
    then show ?thesis by (rule exI[of _ k])
  qed
  show ?thesis
  proof (rule conjI)
    show "\<not> present (localStorage s REFRESH_TOKEN) \<longrightarrow>
            fst (getAccessToken J net s) = None \<and>
            cleared (snd (getAccessToken J net s)) \<and>
            requests (snd (getAccessToken J net s)) = requests s @ [AuthStatus tok]"
      by (rule impI) (rule part1)
  next
    show "\<forall>rt. localStorage s REFRESH_TOKEN = Some rt \<and> rt \<noteq> [] \<longrightarrow>
            (\<exists>k. 1 \<le> k \<and> k \<le> 3 \<and>
               requests (snd (getAccessToken J net s)) =
                 requests s @ AuthStatus tok # replicate k (AuthRefresh rt) \<and>
               (\<forall>i. 1 \<le> i \<and> i < k \<longrightarrow> attempt_throws J (net (length (requests s) + i))) \<and>
               (attempt_throws J (net (length (requests s) + k)) \<longrightarrow>
                  k = 3 \<and> fst (getAccessToken J net s) = None) \<and>
               (\<forall>r. net (length (requests s) + k) = Responded r \<and> \<not> ok r \<longrightarrow>
                  fst (getAccessToken J net s) = None) \<and>
               (fst (getAccessToken J net s) = None \<longrightarrow>
                  cleared (snd (getAccessToken J net s))) \<and>
               (fst (getAccessToken J net s) \<noteq> None \<longrightarrow>
                  fst (getAccessToken J net s) =
                    localStorage (snd (getAccessToken J net s)) ACCESS_TOKEN \<and>
                  (\<exists>r. net (length (requests s) + k) = Responded r \<and> ok r)))"
    proof (intro allI impI)
      fix rt assume "localStorage s REFRESH_TOKEN = Some rt \<and> rt \<noteq> []"
      then have "localStorage s REFRESH_TOKEN = Some rt" "rt \<noteq> []" by simp_all
      then show "\<exists>k. 1 \<le> k \<and> k \<le> 3 \<and>
               requests (snd (getAccessToken J net s)) =
                 requests s @ AuthStatus tok # replicate k (AuthRefresh rt) \<and>
               (\<forall>i. 1 \<le> i \<and> i < k \<longrightarrow> attempt_throws J (net (length (requests s) + i))) \<and>
               (attempt_throws J (net (length (requests s) + k)) \<longrightarrow>
                  k = 3 \<and> fst (getAccessToken J net s) = None) \<and>
               (\<forall>r. net (length (requests s) + k) = Responded r \<and> \<not> ok r \<longrightarrow>
                  fst (getAccessToken J net s) = None) \<and>
               (fst (getAccessToken J net s) = None \<longrightarrow>
                  cleared (snd (getAccessToken J net s))) \<and>
               (fst (getAccessToken J net s) \<noteq> None \<longrightarrow>
                  fst (getAccessToken J net s) =
                    localStorage (snd (getAccessToken J net s)) ACCESS_TOKEN \<and>
                  (\<exists>r. net (length (requests s) + k) = Responded r \<and> ok r))"
        by (rule part2)
    qed
  qed
qed

theorem getAccessToken_refresh_chain_witness:
  "\<exists>k. 1 \<le> k \<and> k \<le> 3 \<and>
     requests (snd (getAccessToken sample_parse
        (\<lambda>n. if n = 0 then Responded unauthorized
             else if n = 1 then NetworkFailure else Responded new_tokens)
        (stored_session ''authenticated''))) =
       AuthStatus ''old-access'' # replicate k (AuthRefresh ''old-refresh'') \<and>
     fst (getAccessToken sample_parse
        (\<lambda>n. if n = 0 then Responded unauthorized
             else if n = 1 then NetworkFailure else Responded new_tokens)
        (stored_session ''authenticated'')) = Some ''new-access''"
proof -
  let ?net = "\<lambda>n::nat. if n = 0 then Responded unauthorized
             else if n = 1 then NetworkFailure else Responded new_tokens"
  let ?s = "stored_session ''authenticated''"
  have h1: "localStorage ?s ACCESS_TOKEN = Some ''old-access''" by simp
  have h2: "''old-access'' \<noteq> []" by simp
  have h3: "\<not> fst (verifyToken sample_parse ?net ''old-access'' ?s)"
    by (simp add: verifyToken_def fetch_def ok_def)
  have r: "localStorage ?s REFRESH_TOKEN = Some ''old-refresh'' \<and> ''old-refresh'' \<noteq> []"
    by simp
  have val: "fst (getAccessToken sample_parse ?net ?s) = Some ''new-access''"
    by (simp add: auth_eval)
  from getAccessToken_refresh_chain[OF h1 h2 h3]
  have "\<forall>rt. localStorage ?s REFRESH_TOKEN = Some rt \<and> rt \<noteq> [] \<longrightarrow>
            (\<exists>k. 1 \<le> k \<and> k \<le> 3 \<and>
               requests (snd (getAccessToken sample_parse ?net ?s)) =
                 requests ?s @ AuthStatus ''old-access'' # replicate k (AuthRefresh rt) \<and>
               (\<forall>i. 1 \<le> i \<and> i < k \<longrightarrow> attempt_throws sample_parse (?net (length (requests ?s) + i))) \<and>
               (attempt_throws sample_parse (?net (length (requests ?s) + k)) \<longrightarrow>
                  k = 3 \<and> fst (getAccessToken sample_parse ?net ?s) = None) \<and>
               (\<forall>r. ?net (length (requests ?s) + k) = Responded r \<and> \<not> ok r \<longrightarrow>
                  fst (getAccessToken sample_parse ?net ?s) = None) \<and>
               (fst (getAccessToken sample_parse ?net ?s) = None \<longrightarrow>
                  cleared (snd (getAccessToken sample_parse ?net ?s))) \<and>
               (fst (getAccessToken sample_parse ?net ?s) \<noteq> None \<longrightarrow>
                  fst (getAccessToken sample_parse ?net ?s) =
                    localStorage (snd (getAccessToken sample_parse ?net ?s)) ACCESS_TOKEN \<and>
                  (\<exists>r. ?net (length (requests ?s) + k) = Responded r \<and> ok r)))"
    by (rule conjunct2)
  then have "localStorage ?s REFRESH_TOKEN = Some ''old-refresh'' \<and> ''old-refresh'' \<noteq> [] \<longrightarrow>
            (\<exists>k. 1 \<le> k \<and> k \<le> 3 \<and>
               requests (snd (getAccessToken sample_parse ?net ?s)) =
                 requests ?s @ AuthStatus ''old-access'' # replicate k (AuthRefresh ''old-refresh'') \<and>
               (\<forall>i. 1 \<le> i \<and> i < k \<longrightarrow> attempt_throws sample_parse (?net (length (requests ?s) + i))) \<and>
               (attempt_throws sample_parse (?net (length (requests ?s) + k)) \<longrightarrow>
                  k = 3 \<and> fst (getAccessToken sample_parse ?net ?s) = None) \<and>
               (\<forall>r. ?net (length (requests ?s) + k) = Responded r \<and> \<not> ok r \<longrightarrow>
                  fst (getAccessToken sample_parse ?net ?s) = None) \<and>
               (fst (getAccessToken sample_parse ?net ?s) = None \<longrightarrow>
                  cleared (snd (getAccessToken sample_parse ?net ?s))) \<and>
               (fst (getAccessToken sample_parse ?net ?s) \<noteq> None \<longrightarrow>
                  fst (getAccessToken sample_parse ?net ?s) =
                    localStorage (snd (getAccessToken sample_parse ?net ?s)) ACCESS_TOKEN \<and>
                  (\<exists>r. ?net (length (requests ?s) + k) = Responded r \<and> ok r)))"
    by (rule spec)
  then obtain k where k: "1 \<le> k \<and> k \<le> 3 \<and>
               requests (snd (getAccessToken sample_parse ?net ?s)) =
                 requests ?s @ AuthStatus ''old-access'' # replicate k (AuthRefresh ''old-refresh'') \<and>
               (\<forall>i. 1 \<le> i \<and> i < k \<longrightarrow> attempt_throws sample_parse (?net (length (requests ?s) + i))) \<and>
               (attempt_throws sample_parse (?net (length (requests ?s) + k)) \<longrightarrow>
                  k = 3 \<and> fst (getAccessToken sample_parse ?net ?s) = None) \<and>
               (\<forall>r. ?net (length (requests ?s) + k) = Responded r \<and> \<not> ok r \<longrightarrow>
                  fst (getAccessToken sample_parse ?net ?s) = None) \<and>
               (fst (getAccessToken sample_parse ?net ?s) = None \<longrightarrow>
                  cleared (snd (getAccessToken sample_parse ?net ?s))) \<and>
               (fst (getAccessToken sample_parse ?net ?s) \<noteq> None \<longrightarrow>
                  fst (getAccessToken sample_parse ?net ?s) =
                    localStorage (snd (getAccessToken sample_parse ?net ?s)) ACCESS_TOKEN \<and>
                  (\<exists>r. ?net (length (requests ?s) + k) = Responded r \<and> ok r))"
    using r by (elim impE exE) (assumption, rule that)
  have k1: "1 \<le> k" and k3: "k \<le> 3" using k by (rule conjunct1, rule conjunct2[THEN conjunct1])
  have kr: "requests (snd (getAccessToken sample_parse ?net ?s)) =
                 requests ?s @ AuthStatus ''old-access'' # replicate k (AuthRefresh ''old-refresh'')"
    using k by (rule conjunct2[THEN conjunct2, THEN conjunct1])
  have "1 \<le> k \<and> k \<le> 3 \<and>
     requests (snd (getAccessToken sample_parse ?net ?s)) =
       AuthStatus ''old-access'' # replicate k (AuthRefresh ''old-refresh'') \<and>
     fst (getAccessToken sample_parse ?net ?s) = Some ''new-access''"
    using k1 k3 kr val by simp
  then show ?thesis by (rule exI[of _ k])
qed

section \<open>Properties of the API client\<close>

text \<open>
  Claim C8, as stated: a 429 response with the body \<^verbatim>\<open>slow down\<close> raises an error of
  the kind RateLimitError. The code has no error kinds: it throws a plain \<^verbatim>\<open>Error\<close>
  object, whose name is \<^verbatim>\<open>Error\<close>, and marks the case in the message only.
\<close>

theorem handleResponse_rate_limited_counterexample:
  "handleResponse sample_parse slow_down = Inl (Thrown ''Error'' ''Rate limited: slow down'') \<and>
   error_name (Thrown ''Error'' ''Rate limited: slow down'') \<noteq> ''RateLimitError''"
  by (simp add: handleResponse_def new_Error_def)

text \<open>
  Claim C8, amended: for every response with status 429, \<^verbatim>\<open>handleResponse\<close> throws a
  plain \<^verbatim>\<open>Error\<close> whose message is \<^verbatim>\<open>Rate limited: \<close> followed by the body (by
  \<^verbatim>\<open>Too many requests\<close> when the body is empty), so for the body \<^verbatim>\<open>slow down\<close> the
  message contains it; and \<^verbatim>\<open>makeRequest\<close> sends the request once and rethrows the error
  without retrying.
\<close>

theorem handleResponse_rate_limited:
  assumes "status response = 429"
  shows "handleResponse J response =
           Inl (new_Error (''Rate limited: '' @
                  (if body response = [] then ''Too many requests'' else body response))) \<and>
         error_name (new_Error (''Rate limited: '' @
                  (if body response = [] then ''Too many requests'' else body response))) = ''Error'' \<and>
         (\<forall>tok s1. getAccessToken J net s = (Some tok, s1) \<and> tok \<noteq> [] \<and>
                  net (length (requests s1)) = Responded response \<longrightarrow>
            makeRequest J net endpoint s =
              (Inl (new_Error (''Rate limited: '' @
                  (if body response = [] then ''Too many requests'' else body response))),
               s1\<lparr>requests := requests s1 @ [ApiRequest endpoint tok]\<rparr>))"
proof -
  let ?e = "new_Error (''Rate limited: '' @
                  (if body response = [] then ''Too many requests'' else body response))"
  have h: "handleResponse J response = Inl ?e"
    using assms by (simp add: handleResponse_def)
  have m: "makeRequest J net endpoint s =
              (Inl ?e, s1\<lparr>requests := requests s1 @ [ApiRequest endpoint tok]\<rparr>)"
    if "getAccessToken J net s = (Some tok, s1)" "tok \<noteq> []"
       "net (length (requests s1)) = Responded response" for tok s1
    using that h by (simp add: makeRequest_def present_def fetch_def)
  have n: "error_name ?e = ''Error''" by (simp add: new_Error_def)
  show ?thesis using h m n by blast
qed

theorem handleResponse_rate_limited_witness:
  "makeRequest sample_parse
     (\<lambda>n. if n = 0 then Responded status_ok else Responded slow_down) ''/api/tasks''
     (stored_session ''authenticated'') =
     (Inl (Thrown ''Error'' ''Rate limited: slow down''),
      (stored_session ''authenticated'')
        \<lparr>requests := [AuthStatus ''old-access'', ApiRequest ''/api/tasks'' ''old-access'']\<rparr>)"
proof -
  let ?net = "\<lambda>n::nat. if n = 0 then Responded status_ok else Responded slow_down"
  let ?s = "stored_session ''authenticated''"
  have g: "getAccessToken sample_parse ?net ?s =
             (Some ''old-access'', ?s\<lparr>requests := [AuthStatus ''old-access'']\<rparr>)"
    by (simp add: auth_eval)
  have a: "status slow_down = 429" by simp
  from handleResponse_rate_limited[OF a, of sample_parse ?net ?s "''/api/tasks''"] g
  show ?thesis by (simp add: new_Error_def)
qed


section \<open>Properties of the sync trigger\<close>

text \<open>
  The authentication service sends only its own requests, so a request to an endpoint of
  the API leaves \<^verbatim>\<open>makeRequest\<close> exactly when \<^verbatim>\<open>getAccessToken\<close> has given a token;
  without one \<^verbatim>\<open>makeRequest\<close> throws before its \<^verbatim>\<open>fetch\<close>.
\<close>

lemma verifyToken_auth_requests:
  "\<exists>rs. requests (snd (verifyToken J net tok s)) = requests s @ rs \<and> list_all auth_request rs"
proof (cases "tok = []")
  case True
  then show ?thesis by (simp add: verifyToken_def)
next
  case False
  then have "requests (snd (verifyToken J net tok s)) = requests s @ [AuthStatus tok]"
    by (simp add: verifyToken_requests)
  moreover have "list_all auth_request [AuthStatus tok]" by (simp add: auth_request_def)
  ultimately show ?thesis by (rule_tac x = "[AuthStatus tok]" in exI) simp
qed

lemma refresh_attempt_auth_requests:
  "\<exists>rs. requests (snd (refresh_attempt J net s)) = requests s @ rs \<and> list_all auth_request rs"
proof (cases "present (localStorage s REFRESH_TOKEN)")
  case False
  then show ?thesis by (simp add: refresh_attempt_def)
next
  case True
  then have "requests (snd (refresh_attempt J net s))
               = requests s @ [AuthRefresh (the (localStorage s REFRESH_TOKEN))]"
    by (simp add: refresh_attempt_def fetch_def storeTokens_def Let_def
        split: fetch_result.splits option.splits sum.splits)
  moreover have "list_all auth_request [AuthRefresh (the (localStorage s REFRESH_TOKEN))]"
    by (simp add: auth_request_def)
  ultimately show ?thesis
    by (rule_tac x = "[AuthRefresh (the (localStorage s REFRESH_TOKEN))]" in exI) simp
qed

lemma refreshAccessToken_auth_requests:
  "\<exists>rs. requests (snd (refreshAccessToken J net retryCount s)) = requests s @ rs \<and>
        list_all auth_request rs"
proof (induction J net retryCount s rule: refreshAccessToken.induct)
  case (1 J net retryCount s)
  obtain r s1 where att: "refresh_attempt J net s = (r, s1)" by (cases "refresh_attempt J net s")
  obtain rs1 where rs1: "requests s1 = requests s @ rs1" "list_all auth_request rs1"
    using refresh_attempt_auth_requests[of J net s] att by auto
  show ?case
  proof (cases r)
    case (Inr b)
    then have "snd (refreshAccessToken J net retryCount s) = s1"
      using att by (simp add: refreshAccessToken.simps[of J net retryCount s])
    then show ?thesis using rs1 by auto
  next
    case (Inl e)
    show ?thesis
    proof (cases "retryCount < 2")
      case True
      have eq: "refreshAccessToken J net retryCount s = refreshAccessToken J net (retryCount + 1) s1"
        using att Inl True by (simp add: refreshAccessToken.simps[of J net retryCount s])
      obtain rs2 where rs2:
        "requests (snd (refreshAccessToken J net (retryCount + 1) s1)) = requests s1 @ rs2"
        "list_all auth_request rs2"
        using 1[OF att[symmetric] Inl True] by auto
      have "requests (snd (refreshAccessToken J net retryCount s)) = requests s @ (rs1 @ rs2)"
        using eq rs1 rs2 by simp
      moreover have "list_all auth_request (rs1 @ rs2)" using rs1 rs2 by simp
      ultimately show ?thesis by (rule_tac x = "rs1 @ rs2" in exI) simp
    next
      case False
      then have "snd (refreshAccessToken J net retryCount s) = clearAuthData False s1"
        using att Inl by (simp add: refreshAccessToken.simps[of J net retryCount s])
      then show ?thesis using rs1 by auto
    qed
  qed
qed

lemma getAccessToken_auth_requests:
  "\<exists>rs. requests (snd (getAccessToken J net s)) = requests s @ rs \<and> list_all auth_request rs"
proof (cases "present (localStorage s ACCESS_TOKEN)")
  case False
  then show ?thesis by (simp add: getAccessToken_def)
next
  case True
  obtain v s1 where ver: "verifyToken J net (the (localStorage s ACCESS_TOKEN)) s = (v, s1)"
    by (cases "verifyToken J net (the (localStorage s ACCESS_TOKEN)) s")
  obtain rs1 where rs1: "requests s1 = requests s @ rs1" "list_all auth_request rs1"
    using verifyToken_auth_requests[of J net "the (localStorage s ACCESS_TOKEN)" s] ver by auto
  show ?thesis
  proof (cases v)
    case True
    then have "snd (getAccessToken J net s) = s1"
      using \<open>present (localStorage s ACCESS_TOKEN)\<close> ver by (simp add: getAccessToken_def)
    then show ?thesis using rs1 by auto
  next
    case False
    obtain b s2 where ref: "refreshAccessToken J net 0 s1 = (b, s2)"
      by (cases "refreshAccessToken J net 0 s1")
    obtain rs2 where rs2: "requests s2 = requests s1 @ rs2" "list_all auth_request rs2"
      using refreshAccessToken_auth_requests[of J net 0 s1] ref by auto
    have "snd (getAccessToken J net s) = s2"
      using \<open>present (localStorage s ACCESS_TOKEN)\<close> ver False ref
      by (simp add: getAccessToken_def)
    then have "requests (snd (getAccessToken J net s)) = requests s @ (rs1 @ rs2)"
      using rs1 rs2 by simp
    moreover have "list_all auth_request (rs1 @ rs2)" using rs1 rs2 by simp
    ultimately show ?thesis by (rule_tac x = "rs1 @ rs2" in exI) simp
  qed
qed

lemma makeRequest_sends:
  assumes "getAccessToken J net s = (accessToken, s1)"
  shows "if present accessToken
         then requests (snd (makeRequest J net endpoint s))
                = requests s1 @ [ApiRequest endpoint (the accessToken)]
         else makeRequest J net endpoint s
                = (Inl (new_Error ''No valid access token available''), s1)"
  using assms by (simp add: makeRequest_def fetch_def split: fetch_result.splits)

lemma run_api_call_makeRequest:
  "run_api_call J net c s = makeRequest J net (api_endpoint c) s"
  by (cases c)
     (simp_all add: run_api_call_def api_endpoint_def triggerAllSourcesSync_def
        triggerRICURecalculation_def)

text \<open>
  Claim C9, as stated: of every two trigger calls less than 5 minutes apart the second
  makes no request, and a call 5 minutes or more after the previous one goes on and sends
  the request. The second half fails in two ways. A call made 5 minutes after the previous
  one began, while that sync is still in flight, stops at the in-flight guard and calls
  nothing. And a call that goes on need not send the request: for a signed-in user whose
  tokens the server no longer accepts, the call passes every guard, sets
  \<^verbatim>\<open>lastSyncTime\<close> and calls the two trigger methods, and each of them throws
  \<^verbatim>\<open>No valid access token available\<close> after the token verification and the token
  refresh have failed; no request reaches a trigger endpoint, whether the second method
  starts from the same session or after the first has cleared it.
\<close>

theorem sync_cooldown_counterexample:
  "triggerSyncOnOpen \<lparr>apiClientAvailable = True, isAuthenticated = True, now = 1000000\<rparr>
     sync_startup =
     (True, \<lparr>lastSyncTime = 1000000, syncInProgress = True,
             api_calls = [TriggerAllSourcesSync False, TriggerRICURecalculation False]\<rparr>) \<and>
   (1300000::int) - 1000000 \<ge> SYNC_COOLDOWN_MS \<and>
   triggerSyncOnOpen \<lparr>apiClientAvailable = True, isAuthenticated = True, now = 1300000\<rparr>
     \<lparr>lastSyncTime = 1000000, syncInProgress = True,
             api_calls = [TriggerAllSourcesSync False, TriggerRICURecalculation False]\<rparr> =
     (False, \<lparr>lastSyncTime = 1000000, syncInProgress = False,
             api_calls = [TriggerAllSourcesSync False, TriggerRICURecalculation False]\<rparr>) \<and>
   auth_isAuthenticated signed_in \<and>
   triggerSyncOnOpen
     \<lparr>apiClientAvailable = True, isAuthenticated = auth_isAuthenticated signed_in,
      now = 1300000\<rparr>
     (sync_finished \<lparr>lastSyncTime = 1000000, syncInProgress = True,
             api_calls = [TriggerAllSourcesSync False, TriggerRICURecalculation False]\<rparr>) =
     (True, \<lparr>lastSyncTime = 1300000, syncInProgress = True,
             api_calls = [TriggerAllSourcesSync False, TriggerRICURecalculation False,
                          TriggerAllSourcesSync False, TriggerRICURecalculation False]\<rparr>) \<and>
   fst (run_api_call sample_parse (\<lambda>n. Responded unauthorized)
          (TriggerAllSourcesSync False) signed_in)
     = Inl (new_Error ''No valid access token available'') \<and>
   requests (snd (run_api_call sample_parse (\<lambda>n. Responded unauthorized)
          (TriggerAllSourcesSync False) signed_in))
     = [AuthStatus ''old-access'', AuthRefresh ''old-refresh''] \<and>
   fst (run_api_call sample_parse (\<lambda>n. Responded unauthorized)
          (TriggerRICURecalculation False) signed_in)
     = Inl (new_Error ''No valid access token available'') \<and>
   requests (snd (run_api_call sample_parse (\<lambda>n. Responded unauthorized)
          (TriggerRICURecalculation False) signed_in))
     = [AuthStatus ''old-access'', AuthRefresh ''old-refresh''] \<and>
   run_api_call sample_parse (\<lambda>n. Responded unauthorized) (TriggerRICURecalculation False)
       (snd (run_api_call sample_parse (\<lambda>n. Responded unauthorized)
          (TriggerAllSourcesSync False) signed_in))
     = (Inl (new_Error ''No valid access token available''),
        snd (run_api_call sample_parse (\<lambda>n. Responded unauthorized)
          (TriggerAllSourcesSync False) signed_in))"
  by (simp add: triggerSyncOnOpen_def sync_startup_def sync_finished_def SYNC_COOLDOWN_MS_def
      auth_isAuthenticated_def run_api_call_def triggerAllSourcesSync_def
      triggerRICURecalculation_def makeRequest_def auth_eval)

text \<open>
  Claim C9, amended: when a trigger call has gone on (it has set \<^verbatim>\<open>lastSyncTime\<close> to its
  own time and called the two trigger methods of the API client), a next call less than 5
  minutes after that time calls no method of the API client, whether the first sync is
  still in flight or has finished; a next call 5 minutes or more after it, provided the
  API client exists, the user is authenticated and the first sync has finished, goes on:
  it sets \<^verbatim>\<open>lastSyncTime\<close> and calls the two trigger methods again. Each of the two
  methods, from whatever state of the authentication service it starts in, first asks for
  the access token, which sends requests of the authentication service only; it then
  sends one request to its endpoint with that token if there is one, and otherwise throws
  \<^verbatim>\<open>No valid access token available\<close> and sends nothing more.
\<close>

theorem sync_cooldown:
  assumes first: "triggerSyncOnOpen env1 s = (True, s1)"
      and later: "s2 = s1 \<or> s2 = sync_finished s1"
  shows "lastSyncTime s1 = now env1 \<and>
         api_calls s1 = api_calls s @ [TriggerAllSourcesSync False, TriggerRICURecalculation False] \<and>
         (now env2 - now env1 < SYNC_COOLDOWN_MS \<longrightarrow>
            triggerSyncOnOpen env2 s2 = (False, sync_finished s1) \<and>
            api_calls (snd (triggerSyncOnOpen env2 s2)) = api_calls s1) \<and>
         (now env2 - now env1 \<ge> SYNC_COOLDOWN_MS \<and> apiClientAvailable env2 \<and>
          isAuthenticated env2 \<and> s2 = sync_finished s1 \<longrightarrow>
            triggerSyncOnOpen env2 s2 =
              (True, s1\<lparr>lastSyncTime := now env2,
                        api_calls := api_calls s1 @
                          [TriggerAllSourcesSync False, TriggerRICURecalculation False]\<rparr>) \<and>
            (\<forall>c \<in> set [TriggerAllSourcesSync False, TriggerRICURecalculation False].
               (\<exists>rs. requests (snd (getAccessToken J net a)) = requests a @ rs \<and>
                     list_all auth_request rs) \<and>
               (if present (fst (getAccessToken J net a))
                then requests (snd (run_api_call J net c a))
                       = requests (snd (getAccessToken J net a)) @
                         [ApiRequest (api_endpoint c) (the (fst (getAccessToken J net a)))]
                else run_api_call J net c a
                       = (Inl (new_Error ''No valid access token available''),
                          snd (getAccessToken J net a)))))"
proof -
  have s1: "s1 = s\<lparr>syncInProgress := True, lastSyncTime := now env1,
                    api_calls := api_calls s @
                      [TriggerAllSourcesSync False, TriggerRICURecalculation False]\<rparr>"
    using first by (auto simp: triggerSyncOnOpen_def Let_def split: if_splits)
  have a: "lastSyncTime s1 = now env1" and
    b: "api_calls s1 = api_calls s @ [TriggerAllSourcesSync False, TriggerRICURecalculation False]"
    and p: "syncInProgress s1" by (simp_all add: s1)
  have last2: "lastSyncTime s2 = now env1" using later a by (auto simp: sync_finished_def)
  have fin2: "s2\<lparr>syncInProgress := False\<rparr> = sync_finished s1"
    using later by (auto simp: sync_finished_def)
  have c: "triggerSyncOnOpen env2 s2 = (False, sync_finished s1)"
    if "now env2 - now env1 < SYNC_COOLDOWN_MS"
    using that last2 fin2 by (simp add: triggerSyncOnOpen_def Let_def)
  have d: "triggerSyncOnOpen env2 s2 =
              (True, s1\<lparr>lastSyncTime := now env2,
                        api_calls := api_calls s1 @
                          [TriggerAllSourcesSync False, TriggerRICURecalculation False]\<rparr>)"
    if "now env2 - now env1 \<ge> SYNC_COOLDOWN_MS" "apiClientAvailable env2"
      "isAuthenticated env2" "s2 = sync_finished s1"
    using that a p by (simp add: triggerSyncOnOpen_def Let_def sync_finished_def s1)
  have e: "api_calls (sync_finished s1) = api_calls s1" by (simp add: sync_finished_def)
  have f: "(\<exists>rs. requests (snd (getAccessToken J net a)) = requests a @ rs \<and>
                     list_all auth_request rs) \<and>
               (if present (fst (getAccessToken J net a))
                then requests (snd (run_api_call J net c a))
                       = requests (snd (getAccessToken J net a)) @
                         [ApiRequest (api_endpoint c) (the (fst (getAccessToken J net a)))]
                else run_api_call J net c a
                       = (Inl (new_Error ''No valid access token available''),
                          snd (getAccessToken J net a)))" for c
  proof
    show "\<exists>rs. requests (snd (getAccessToken J net a)) = requests a @ rs \<and>
               list_all auth_request rs"
      by (rule getAccessToken_auth_requests)
    have "getAccessToken J net a = (fst (getAccessToken J net a), snd (getAccessToken J net a))"
      by simp
    from makeRequest_sends[OF this, of "api_endpoint c"]
    show "if present (fst (getAccessToken J net a))
                then requests (snd (run_api_call J net c a))
                       = requests (snd (getAccessToken J net a)) @
                         [ApiRequest (api_endpoint c) (the (fst (getAccessToken J net a)))]
                else run_api_call J net c a
                       = (Inl (new_Error ''No valid access token available''),
                          snd (getAccessToken J net a))"
      unfolding run_api_call_makeRequest .
  qed
  show ?thesis
  proof (intro conjI impI ballI)
    show "lastSyncTime s1 = now env1" by (rule a)
    show "api_calls s1 = api_calls s @ [TriggerAllSourcesSync False, TriggerRICURecalculation False]"
      by (rule b)
    show "triggerSyncOnOpen env2 s2 = (False, sync_finished s1)"
      if "now env2 - now env1 < SYNC_COOLDOWN_MS" using that by (rule c)
    show "api_calls (snd (triggerSyncOnOpen env2 s2)) = api_calls s1"
      if "now env2 - now env1 < SYNC_COOLDOWN_MS" using c[OF that] e by simp
    show "triggerSyncOnOpen env2 s2 =
              (True, s1\<lparr>lastSyncTime := now env2,
                        api_calls := api_calls s1 @
                          [TriggerAllSourcesSync False, TriggerRICURecalculation False]\<rparr>)"
      if "now env2 - now env1 \<ge> SYNC_COOLDOWN_MS \<and> apiClientAvailable env2 \<and>
          isAuthenticated env2 \<and> s2 = sync_finished s1"
      using that d by simp
  qed (rule f[THEN conjunct1], rule f[THEN conjunct2])
qed

theorem sync_cooldown_witness:
  "triggerSyncOnOpen \<lparr>apiClientAvailable = True, isAuthenticated = True, now = 1200000\<rparr>
     (sync_finished \<lparr>lastSyncTime = 1000000, syncInProgress = True,
             api_calls = [TriggerAllSourcesSync False, TriggerRICURecalculation False]\<rparr>) =
     (False, \<lparr>lastSyncTime = 1000000, syncInProgress = False,
             api_calls = [TriggerAllSourcesSync False, TriggerRICURecalculation False]\<rparr>) \<and>
   triggerSyncOnOpen \<lparr>apiClientAvailable = True, isAuthenticated = True, now = 1300000\<rparr>
     (sync_finished \<lparr>lastSyncTime = 1000000, syncInProgress = True,
             api_calls = [TriggerAllSourcesSync False, TriggerRICURecalculation False]\<rparr>) =
     (True, \<lparr>lastSyncTime = 1300000, syncInProgress = True,
             api_calls = [TriggerAllSourcesSync False, TriggerRICURecalculation False,
                          TriggerAllSourcesSync False, TriggerRICURecalculation False]\<rparr>) \<and>
   requests (snd (run_api_call sample_parse (\<lambda>n. Responded status_ok)
                    (TriggerAllSourcesSync False) signed_in))
     = [AuthStatus ''old-access'',
        ApiRequest ''/api/queues/source-ingestion/trigger-all'' ''old-access''] \<and>
   requests (snd (run_api_call sample_parse (\<lambda>n. Responded status_ok)
                    (TriggerRICURecalculation False) signed_in))
     = [AuthStatus ''old-access'',
        ApiRequest ''/api/queues/ricu-recalculation/trigger'' ''old-access'']"
proof -
  let ?e1 = "\<lparr>apiClientAvailable = True, isAuthenticated = True, now = 1000000\<rparr>"
  let ?s1 = "\<lparr>lastSyncTime = 1000000, syncInProgress = True,
             api_calls = [TriggerAllSourcesSync False, TriggerRICURecalculation False]\<rparr>"
  have first: "triggerSyncOnOpen ?e1 sync_startup = (True, ?s1)"
    by (simp add: triggerSyncOnOpen_def sync_startup_def SYNC_COOLDOWN_MS_def)
  have later: "sync_finished ?s1 = ?s1 \<or> sync_finished ?s1 = sync_finished ?s1" by simp
  have tok: "getAccessToken sample_parse (\<lambda>n. Responded status_ok) signed_in
               = (Some ''old-access'', signed_in\<lparr>requests := [AuthStatus ''old-access'']\<rparr>)"
    by (simp add: auth_eval)
  note t = sync_cooldown[OF first later, where J = sample_parse
      and net = "\<lambda>n. Responded status_ok" and a = signed_in]
  show ?thesis
    using t[of "\<lparr>apiClientAvailable = True, isAuthenticated = True, now = 1200000\<rparr>"]
      t[of "\<lparr>apiClientAvailable = True, isAuthenticated = True, now = 1300000\<rparr>"]
    by (simp add: SYNC_COOLDOWN_MS_def sync_finished_def tok present_def api_endpoint_def)
qed

end
